theory Spec2Isabelle
  imports Main "HOL-Library.Word"
begin

section \<open>The trait classifier and the dispatch facade\<close>

text \<open>
  A payload type is a complete object type, described by what the templates of
  \<^verbatim>\<open>main.cpp\<close> and the declarations of the two handle classes ask of it:
  \<^item> \<open>SharedPtr U n\<close> is \<^verbatim>\<open>std::shared_ptr<U>\<close> (the pattern of the second partial
    specialisation of \<^verbatim>\<open>inlined_object\<close>); its size \<open>n\<close> is left to the platform. It
    has a user-provided copy constructor and destructor, so it is never trivially
    copyable, and it can always be copied.
  \<^item> \<open>Array U n\<close> is the array type \<^verbatim>\<open>U[n]\<close>: trivially copyable when \<open>U\<close> is, of size
    \<open>n\<close> times the size of \<open>U\<close>. No function returns an array and no array is
    initialised from another array.
  \<^item> \<open>Other tc cc n\<close> is any other object type (a scalar, a class that is not an
    instance of \<^verbatim>\<open>std::shared_ptr\<close>): \<open>tc\<close> says whether it is trivially copyable,
    \<open>cc\<close> whether an object of it can be copy-initialised from a const lvalue of it
    (\<^verbatim>\<open>std::is_copy_constructible_v\<close>: it has a copy constructor taking
    \<^verbatim>\<open>const T &\<close> that is not deleted), \<open>n\<close> is its size in bytes. A trivially copyable
    class may have a deleted copy constructor (a move-only class with a defaulted move
    constructor), so \<open>tc\<close> and \<open>cc\<close> are independent.
\<close>

datatype cpp_type =
  SharedPtr cpp_type nat
| Array cpp_type nat
| Other bool bool nat

fun is_shared_ptr :: "cpp_type \<Rightarrow> bool" where
  "is_shared_ptr (SharedPtr _ _) = True"
| "is_shared_ptr (Array _ _) = False"
| "is_shared_ptr (Other _ _ _) = False"

fun is_array_v :: "cpp_type \<Rightarrow> bool" where
  "is_array_v (SharedPtr _ _) = False"
| "is_array_v (Array _ _) = True"
| "is_array_v (Other _ _ _) = False"

fun is_trivially_copyable_v :: "cpp_type \<Rightarrow> bool" where
  "is_trivially_copyable_v (SharedPtr _ _) = False"
| "is_trivially_copyable_v (Array U _) = is_trivially_copyable_v U"
| "is_trivially_copyable_v (Other tc _ _) = tc"


fun sizeof :: "cpp_type \<Rightarrow> nat" where
  "sizeof (SharedPtr _ n) = n"
| "sizeof (Array U n) = n * sizeof U"
| "sizeof (Other _ _ n) = n"

definition MAX_SMALL_SIZE :: nat where
  "MAX_SMALL_SIZE = 64"

text \<open>
  \<^verbatim>\<open>inlined_object<T, void>\<close>: the primary template is \<^verbatim>\<open>false_type\<close>; two partial
  specialisations are \<^verbatim>\<open>true_type\<close>. The first is viable when its \<^verbatim>\<open>enable_if_t\<close>
  is \<^verbatim>\<open>void\<close>, the second when \<^verbatim>\<open>T\<close> matches \<^verbatim>\<open>std::shared_ptr<U>\<close>. Neither is more
  specialised than the other, so a type matching both would be ill-formed (\<open>None\<close>).
\<close>

definition inlined_object_matches :: "cpp_type \<Rightarrow> bool list" where
  "inlined_object_matches T =
     (if is_trivially_copyable_v T \<and> sizeof T \<le> MAX_SMALL_SIZE then [True] else []) @
     (case T of SharedPtr _ _ \<Rightarrow> [True] | Array _ _ \<Rightarrow> [] | Other _ _ _ \<Rightarrow> [])"

definition inlined_object :: "cpp_type \<Rightarrow> bool option" where
  "inlined_object T =
     (case inlined_object_matches T of
        [] \<Rightarrow> Some False
      | [v] \<Rightarrow> Some v
      | _ \<Rightarrow> None)"

definition inlined_object_v :: "cpp_type \<Rightarrow> bool option" where
  "inlined_object_v T = inlined_object T"

text \<open>
  \<^verbatim>\<open>SmallImpl<T, void>\<close>: the partial specialisation
  \<^verbatim>\<open>SmallImpl<T, std::enable_if_t<inlined_object_v<T>>>\<close> is chosen when
  \<^verbatim>\<open>inlined_object_v<T>\<close> holds, the primary template (the pooled handle) otherwise.
\<close>

datatype variant = Pooled | Inline

fun inlined :: "variant \<Rightarrow> bool" where
  "inlined Pooled = False"
| "inlined Inline = True"

definition SmallImpl_selected :: "cpp_type \<Rightarrow> variant option" where
  "SmallImpl_selected T =
     (case inlined_object_v T of
        None \<Rightarrow> None
      | Some b \<Rightarrow> Some (if b then Inline else Pooled))"

text \<open>
  Naming a member of the class, as \<^verbatim>\<open>Small<T>::inlined\<close> does, instantiates the class
  and with it the declarations of its members (not the bodies of its member functions).
  The inline specialisation declares \<^verbatim>\<open>explicit operator T() const\<close> and
  \<^verbatim>\<open>T data() const\<close>: both are ill-formed when \<^verbatim>\<open>T\<close> is an array type. The primary
  template declares \<^verbatim>\<open>const T &data() const\<close>,
  \<^verbatim>\<open>explicit operator const T &() const\<close>, a \<^verbatim>\<open>std::shared_ptr<ParallelPool<T>>\<close> and an
  \<^verbatim>\<open>AtomicCounter<T> *\<close>, well-formed for every object type.
\<close>

fun member_declarations_ok :: "variant \<Rightarrow> cpp_type \<Rightarrow> bool" where
  "member_declarations_ok Inline T = (\<not> is_array_v T)"
| "member_declarations_ok Pooled T = True"

definition SmallImpl :: "cpp_type \<Rightarrow> variant option" where
  "SmallImpl T =
     (case SmallImpl_selected T of
        None \<Rightarrow> None
      | Some v \<Rightarrow> if member_declarations_ok v T then Some v else None)"

definition Small :: "cpp_type \<Rightarrow> variant option" where
  "Small T = SmallImpl T"

section \<open>The pooled representation\<close>

subsection \<open>Errors\<close>

text \<open>
  Every way an operation can fail to return is a value: \<open>bad_alloc\<close> is the exception
  \<^verbatim>\<open>std::bad_alloc\<close> leaving the operation, \<open>undefined_behaviour\<close> a dereference of a
  null or dangling pointer, \<open>deadlock\<close> a \<^verbatim>\<open>lock_guard\<close> on a mutex that is held and
  never released, \<open>ill_formed\<close> an event no program can perform (using a handle object
  that does not exist, creating one where a live one stands, or calling a member function
  whose body the compiler rejects).
\<close>

datatype error = bad_alloc | undefined_behaviour | deadlock | ill_formed

definition and_then :: "error + 'a \<Rightarrow> ('a \<Rightarrow> error + 'b) \<Rightarrow> error + 'b" where
  "and_then m f = (case m of Inl e \<Rightarrow> Inl e | Inr x \<Rightarrow> f x)"

subsection \<open>Cells\<close>

type_synonym addr = nat
type_synonym pool_id = nat
type_synonym thread_id = nat
type_synonym type_id = nat
type_synonym handle_id = nat

text \<open>
  \<^verbatim>\<open>AtomicCounter<T>\<close>: the payload and the use-count. \<^verbatim>\<open>size_t\<close> is taken as 64 bits
  wide; \<^verbatim>\<open>++\<close> and \<^verbatim>\<open>--\<close> on it wrap around.
\<close>

record 'a AtomicCounter =
  data :: 'a
  uses :: "64 word"

definition AtomicCounter_ctor :: "'a \<Rightarrow> 'a AtomicCounter" where
  "AtomicCounter_ctor args = \<lparr>data = args, uses = 1\<rparr>"

text \<open>
  \<^verbatim>\<open>std::atomic<size_t>::operator++()\<close> and \<^verbatim>\<open>operator--()\<close>: one indivisible
  read-modify-write each. The first component is the value stored, the second the value
  the expression yields (the new value, for the prefix forms).
\<close>

definition atomic_pre_increment :: "64 word \<Rightarrow> 64 word \<times> 64 word" where
  "atomic_pre_increment u = (u + 1, u + 1)"

definition atomic_pre_decrement :: "64 word \<Rightarrow> 64 word \<times> 64 word" where
  "atomic_pre_decrement u = (u - 1, u - 1)"

subsection \<open>The pool\<close>

text \<open>
  \<^verbatim>\<open>boost::object_pool\<close> is not part of the repository. It is modelled by its documented
  contract: the chunks of the blocks it obtained from its backing allocator, and the
  address-ordered list of the free ones. \<^verbatim>\<open>malloc\<close> hands out the first free chunk; with
  none left it asks the backing allocator for a block and returns the null pointer when
  the allocator has none (\<open>OutOfMemory\<close>); \<^verbatim>\<open>construct\<close> is \<^verbatim>\<open>malloc\<close> followed by
  construction in place and returns the null pointer when \<^verbatim>\<open>malloc\<close> does;
  \<^verbatim>\<open>destroy\<close> runs the destructor and puts the chunk back on the free list.
  The backing allocator hands out addresses from \<open>heap_top\<close> upwards; \<open>Block n\<close> is a
  fresh block with room for \<open>n\<close> chunks besides the one handed out.
\<close>

datatype backing_reply = OutOfMemory | Block nat

record object_pool =
  chunks :: "addr list"
  free_list :: "addr list"

definition object_pool_malloc ::
  "object_pool \<Rightarrow> backing_reply \<Rightarrow> addr \<Rightarrow> addr option \<times> object_pool \<times> addr" where
  "object_pool_malloc opl reply brk =
     (case free_list opl of
        a # fl \<Rightarrow> (Some a, opl\<lparr>free_list := fl\<rparr>, brk)
      | [] \<Rightarrow>
          (case reply of
             OutOfMemory \<Rightarrow> (None, opl, brk)
           | Block n \<Rightarrow>
               (Some brk,
                opl\<lparr>chunks := chunks opl @ [brk ..< Suc brk + n],
                   free_list := [Suc brk ..< Suc brk + n]\<rparr>,
                Suc brk + n)))"

definition object_pool_free :: "addr \<Rightarrow> object_pool \<Rightarrow> object_pool" where
  "object_pool_free a opl = opl\<lparr>free_list := insort a (free_list opl)\<rparr>"

text \<open>\<^verbatim>\<open>ParallelPool<T>\<close>: the object pool and the mutex (\<open>True\<close> when held).\<close>

record ParallelPool =
  pool :: object_pool
  mutex :: bool

text \<open>
  \<^verbatim>\<open>std::shared_ptr<ParallelPool<T>>\<close> is a pool identity; \<open>use_count\<close> is the count of the
  control block (a \<^verbatim>\<open>long\<close>). \<^verbatim>\<open>AtomicCounter<T> *\<close> is \<open>addr option\<close>, \<open>None\<close> the null
  pointer. The members \<^verbatim>\<open>owner_\<close> and \<^verbatim>\<open>counter_\<close> are the fields \<open>owner\<close> and
  \<open>counter\<close>.
\<close>

record handle =
  owner :: pool_id
  counter :: "addr option"

text \<open>What the operations did to pools and cells, in order (a ghost log).\<close>

datatype action =
  PoolCreated pool_id
| PoolDeleted pool_id
| Lock pool_id
| Unlock pool_id
| Constructed pool_id addr
| Destroyed addr
| Freed pool_id addr

record 'a state =
  cells :: "addr \<rightharpoonup> 'a AtomicCounter"
  pools :: "pool_id \<rightharpoonup> ParallelPool"
  use_count :: "pool_id \<Rightarrow> int"
  tls :: "((thread_id \<times> type_id) \<times> pool_id) list"
  handles :: "(handle_id \<times> handle) list"
  heap_top :: addr
  next_pool :: pool_id
  trace :: "action list"

definition init :: "'a state" where
  "init = \<lparr>cells = Map.empty, pools = Map.empty, use_count = (\<lambda>_. 0), tls = [],
           handles = [], heap_top = 1, next_pool = 0, trace = []\<rparr>"

text \<open>\<^verbatim>\<open>std::lock_guard l(mutex)\<close>: locks where it is declared, unlocks at the end of the scope.\<close>

definition mutex_lock :: "pool_id \<Rightarrow> 'a state \<Rightarrow> error + 'a state" where
  "mutex_lock p s =
     (case pools s p of
        None \<Rightarrow> Inl undefined_behaviour
      | Some P \<Rightarrow>
          if mutex P then Inl deadlock
          else Inr (s\<lparr>pools := (pools s)(p \<mapsto> P\<lparr>mutex := True\<rparr>),
                      trace := trace s @ [Lock p]\<rparr>))"

definition mutex_unlock :: "pool_id \<Rightarrow> 'a state \<Rightarrow> error + 'a state" where
  "mutex_unlock p s =
     (case pools s p of
        None \<Rightarrow> Inl undefined_behaviour
      | Some P \<Rightarrow>
          if mutex P
          then Inr (s\<lparr>pools := (pools s)(p \<mapsto> P\<lparr>mutex := False\<rparr>),
                      trace := trace s @ [Unlock p]\<rparr>)
          else Inl undefined_behaviour)"

text \<open>\<^verbatim>\<open>pool.construct(args...)\<close> and \<^verbatim>\<open>pool.destroy(chunk)\<close> on the pool member of \<open>p\<close>.\<close>

definition pool_construct ::
  "pool_id \<Rightarrow> 'a \<Rightarrow> backing_reply \<Rightarrow> 'a state \<Rightarrow> error + (addr option \<times> 'a state)" where
  "pool_construct p args reply s =
     (case pools s p of
        None \<Rightarrow> Inl undefined_behaviour
      | Some P \<Rightarrow>
          (case object_pool_malloc (pool P) reply (heap_top s) of
             (None, opl, brk) \<Rightarrow>
               Inr (None, s\<lparr>pools := (pools s)(p \<mapsto> P\<lparr>pool := opl\<rparr>), heap_top := brk\<rparr>)
           | (Some a, opl, brk) \<Rightarrow>
               Inr (Some a,
                    s\<lparr>cells := (cells s)(a \<mapsto> AtomicCounter_ctor args),
                      pools := (pools s)(p \<mapsto> P\<lparr>pool := opl\<rparr>),
                      heap_top := brk,
                      trace := trace s @ [Constructed p a]\<rparr>)))"

definition pool_destroy :: "pool_id \<Rightarrow> addr \<Rightarrow> 'a state \<Rightarrow> error + 'a state" where
  "pool_destroy p a s =
     (case pools s p of
        None \<Rightarrow> Inl undefined_behaviour
      | Some P \<Rightarrow>
          if a \<in> set (chunks (pool P)) \<and> a \<notin> set (free_list (pool P)) \<and> cells s a \<noteq> None
          then Inr (s\<lparr>cells := (cells s)(a := None),
                      pools := (pools s)(p \<mapsto> P\<lparr>pool := object_pool_free a (pool P)\<rparr>),
                      trace := trace s @ [Destroyed a, Freed p a]\<rparr>)
          else Inl undefined_behaviour)"

definition ParallelPool_construct ::
  "pool_id \<Rightarrow> 'a \<Rightarrow> backing_reply \<Rightarrow> 'a state \<Rightarrow> error + (addr option \<times> 'a state)" where
  "ParallelPool_construct p args reply s =
     and_then (mutex_lock p s) (\<lambda>s1.
     and_then (pool_construct p args reply s1) (\<lambda>(ret, s2).
     and_then (mutex_unlock p s2) (\<lambda>s3. Inr (ret, s3))))"

definition ParallelPool_destroy :: "pool_id \<Rightarrow> addr \<Rightarrow> 'a state \<Rightarrow> error + 'a state" where
  "ParallelPool_destroy p a s =
     and_then (mutex_lock p s) (\<lambda>s1.
     and_then (pool_destroy p a s1) (\<lambda>s2.
     mutex_unlock p s2))"

subsection \<open>Shared ownership of pools\<close>

text \<open>
  Copying a \<^verbatim>\<open>shared_ptr\<close> adds one to the count; destroying one takes one off and deletes
  the pool when the count reaches zero. \<^verbatim>\<open>~object_pool\<close> destroys every object still
  allocated and gives the blocks back.
\<close>

definition shared_ptr_copy :: "pool_id \<Rightarrow> 'a state \<Rightarrow> 'a state" where
  "shared_ptr_copy p s = s\<lparr>use_count := (use_count s)(p := use_count s p + 1)\<rparr>"

definition ParallelPool_dtor :: "pool_id \<Rightarrow> 'a state \<Rightarrow> error + 'a state" where
  "ParallelPool_dtor p s =
     (case pools s p of
        None \<Rightarrow> Inl undefined_behaviour
      | Some P \<Rightarrow>
          Inr (s\<lparr>cells := (\<lambda>a. if a \<in> set (chunks (pool P)) then None else cells s a),
                 pools := (pools s)(p := None),
                 trace := trace s @
                   map Destroyed
                     (filter (\<lambda>a. a \<notin> set (free_list (pool P))) (chunks (pool P))) @
                   [PoolDeleted p]\<rparr>))"

definition shared_ptr_release :: "pool_id \<Rightarrow> 'a state \<Rightarrow> error + 'a state" where
  "shared_ptr_release p s =
     (let n = use_count s p - 1;
          s1 = s\<lparr>use_count := (use_count s)(p := n)\<rparr>
      in if n = 0 then ParallelPool_dtor p s1 else Inr s1)"

text \<open>
  \<^verbatim>\<open>getPool<T>()\<close> on thread \<open>t\<close>: the \<^verbatim>\<open>thread_local\<close> variable of the instantiation for
  \<open>T\<close> is initialised by \<^verbatim>\<open>make_shared\<close> the first time control passes through its
  declaration on that thread (\<open>new_ok\<close>: whether that allocation succeeds; when it throws,
  the variable stays uninitialised); the function returns a copy of it.
\<close>

definition getPool ::
  "thread_id \<Rightarrow> type_id \<Rightarrow> bool \<Rightarrow> 'a state \<Rightarrow> error + (pool_id \<times> 'a state)" where
  "getPool t T new_ok s =
     (case map_of (tls s) (t, T) of
        Some p \<Rightarrow> Inr (p, shared_ptr_copy p s)
      | None \<Rightarrow>
          if new_ok then
            (let p = next_pool s;
                 s1 = s\<lparr>pools := (pools s)(p \<mapsto> \<lparr>pool = \<lparr>chunks = [], free_list = []\<rparr>,
                                                 mutex = False\<rparr>),
                        use_count := (use_count s)(p := 1),
                        tls := ((t, T), p) # tls s,
                        next_pool := Suc p,
                        trace := trace s @ [PoolCreated p]\<rparr>
             in Inr (p, shared_ptr_copy p s1))
          else Inl bad_alloc)"

text \<open>
  The end of thread \<open>t\<close>: its \<^verbatim>\<open>thread_local\<close> pool pointers are destroyed, one after the
  other.
\<close>

fun destroy_tls ::
  "((thread_id \<times> type_id) \<times> pool_id) list \<Rightarrow> 'a state \<Rightarrow> error + 'a state" where
  "destroy_tls [] s = Inr s"
| "destroy_tls ((k, p) # es) s =
     and_then (shared_ptr_release p (s\<lparr>tls := filter (\<lambda>e. fst e \<noteq> k) (tls s)\<rparr>))
       (destroy_tls es)"

definition thread_exit :: "thread_id \<Rightarrow> 'a state \<Rightarrow> error + 'a state" where
  "thread_exit t s = destroy_tls (filter (\<lambda>e. fst (fst e) = t) (tls s)) s"

subsection \<open>The pooled handle\<close>

text \<open>
  The primary template \<^verbatim>\<open>SmallImpl\<close>. A handle object is named by a \<open>handle_id\<close>;
  \<open>handles\<close> lists the handle objects within their lifetime.

  The constructor: \<^verbatim>\<open>owner_(getPool<T>()), counter_(owner_->construct(std::move(args)...))\<close>.
\<close>

definition SmallImpl_ctor ::
  "thread_id \<Rightarrow> type_id \<Rightarrow> handle_id \<Rightarrow> 'a \<Rightarrow> bool \<Rightarrow> backing_reply \<Rightarrow> 'a state \<Rightarrow>
     error + 'a state" where
  "SmallImpl_ctor t T h args new_ok reply s =
     (if h \<in> fst ` set (handles s) then Inl ill_formed
      else
        and_then (getPool t T new_ok s) (\<lambda>(p, s1).
        and_then (ParallelPool_construct p args reply s1) (\<lambda>(c, s2).
        Inr (s2\<lparr>handles := (h, \<lparr>owner = p, counter = c\<rparr>) # handles s2\<rparr>))))"

text \<open>
  The copy constructor:
  \<^verbatim>\<open>owner_(item.owner_), counter_((++item.counter_->uses, item.counter_))\<close>.
\<close>

definition SmallImpl_copy :: "handle_id \<Rightarrow> handle_id \<Rightarrow> 'a state \<Rightarrow> error + 'a state" where
  "SmallImpl_copy src dst s =
     (case map_of (handles s) src of
        None \<Rightarrow> Inl ill_formed
      | Some item \<Rightarrow>
          if dst \<in> fst ` set (handles s) then Inl ill_formed
          else
            (let s1 = shared_ptr_copy (owner item) s in
             case counter item of
               None \<Rightarrow> Inl undefined_behaviour
             | Some a \<Rightarrow>
                 (case cells s1 a of
                    None \<Rightarrow> Inl undefined_behaviour
                  | Some c \<Rightarrow>
                      Inr (s1\<lparr>cells := (cells s1)(a \<mapsto>
                                 c\<lparr>uses := fst (atomic_pre_increment (uses c))\<rparr>),
                              handles := (dst, \<lparr>owner = owner item, counter = Some a\<rparr>)
                                         # handles s1\<rparr>))))"

text \<open>
  The copy assignment operator. The class declares a copy constructor and a destructor
  and no \<^verbatim>\<open>operator=\<close>, so the compiler declares the copy assignment operator itself and
  defines it memberwise: \<^verbatim>\<open>owner_ = item.owner_; counter_ = item.counter_;\<close>. Assigning
  the \<^verbatim>\<open>shared_ptr\<close> takes a share of the source's pool and then gives up the share the
  target had; assigning the pointer copies it and touches no use-count.
\<close>

definition SmallImpl_assign :: "handle_id \<Rightarrow> handle_id \<Rightarrow> 'a state \<Rightarrow> error + 'a state" where
  "SmallImpl_assign dst src s =
     (case map_of (handles s) src of
        None \<Rightarrow> Inl ill_formed
      | Some item \<Rightarrow>
          (case map_of (handles s) dst of
             None \<Rightarrow> Inl ill_formed
           | Some this \<Rightarrow>
               and_then
                 (shared_ptr_release (owner this) (shared_ptr_copy (owner item) s))
                 (\<lambda>s1. Inr (s1\<lparr>handles :=
                    map (\<lambda>e. if fst e = dst
                              then (dst, \<lparr>owner = owner item, counter = counter item\<rparr>)
                              else e)
                        (handles s1)\<rparr>))))"

text \<open>
  The destructor. The lifetime of the handle object ends when the destructor starts, so
  the object leaves \<open>handles\<close> first. The body is
  \<^verbatim>\<open>if (!--counter_->uses) { owner_->destroy(counter_); }\<close>; after the body the member
  \<^verbatim>\<open>owner_\<close> is destroyed.
\<close>

definition SmallImpl_dtor_body :: "handle \<Rightarrow> 'a state \<Rightarrow> error + 'a state" where
  "SmallImpl_dtor_body x s =
     (case counter x of
        None \<Rightarrow> Inl undefined_behaviour
      | Some a \<Rightarrow>
          (case cells s a of
             None \<Rightarrow> Inl undefined_behaviour
           | Some c \<Rightarrow>
               (case atomic_pre_decrement (uses c) of
                  (stored, observed) \<Rightarrow>
                    (let s1 = s\<lparr>cells := (cells s)(a \<mapsto> c\<lparr>uses := stored\<rparr>)\<rparr>
                     in if observed = 0 then ParallelPool_destroy (owner x) a s1
                        else Inr s1))))"

definition SmallImpl_dtor :: "handle_id \<Rightarrow> 'a state \<Rightarrow> error + 'a state" where
  "SmallImpl_dtor h s =
     (case map_of (handles s) h of
        None \<Rightarrow> Inl ill_formed
      | Some x \<Rightarrow>
          and_then
            (SmallImpl_dtor_body x (s\<lparr>handles := filter (\<lambda>e. fst e \<noteq> h) (handles s)\<rparr>))
            (shared_ptr_release (owner x)))"

text \<open>
  \<^verbatim>\<open>data()\<close> returns the reference \<^verbatim>\<open>counter_->data\<close>: the payload object of the cell,
  named by the cell's address. \<open>read_ref\<close> reads the payload through such a reference.
\<close>

definition SmallImpl_data :: "handle_id \<Rightarrow> 'a state \<Rightarrow> error + addr" where
  "SmallImpl_data h s =
     (case map_of (handles s) h of
        None \<Rightarrow> Inl ill_formed
      | Some x \<Rightarrow>
          (case counter x of
             None \<Rightarrow> Inl undefined_behaviour
           | Some a \<Rightarrow> if cells s a = None then Inl undefined_behaviour else Inr a))"

definition read_ref :: "addr \<Rightarrow> 'a state \<Rightarrow> error + 'a" where
  "read_ref a s =
     (case cells s a of None \<Rightarrow> Inl undefined_behaviour | Some c \<Rightarrow> Inr (data c))"

subsection \<open>Runs\<close>

text \<open>
  What threads do, one operation at a time. Every event names the thread that performs
  it. \<open>New t T h args new_ok reply\<close> constructs the handle object \<open>h\<close> of payload type
  \<open>T\<close>; \<open>new_ok\<close> and \<open>reply\<close> say what the allocators answer if they are asked.
  \<open>Copy t src dst\<close> copy-constructs \<open>dst\<close> from \<open>src\<close>, \<open>Delete t h\<close> destroys \<open>h\<close>,
  \<open>GetPool t T new_ok\<close> calls \<^verbatim>\<open>getPool<T>()\<close> and drops the result, \<open>ThreadExit t\<close> ends
  the thread. The copy constructor and the destructor never ask which thread runs them.
  Runs are made of constructions, copy constructions and destructions; assignment
  (\<open>SmallImpl_assign\<close>) is not one of their events.
\<close>

datatype 'a event =
  New thread_id type_id handle_id 'a bool backing_reply
| Copy thread_id handle_id handle_id
| Delete thread_id handle_id
| GetPool thread_id type_id bool
| ThreadExit thread_id

fun step :: "'a state \<Rightarrow> 'a event \<Rightarrow> error + 'a state" where
  "step s (New t T h args new_ok reply) = SmallImpl_ctor t T h args new_ok reply s"
| "step s (Copy t src dst) = SmallImpl_copy src dst s"
| "step s (Delete t h) = SmallImpl_dtor h s"
| "step s (GetPool t T new_ok) =
     and_then (getPool t T new_ok s) (\<lambda>(p, s1). shared_ptr_release p s1)"
| "step s (ThreadExit t) = thread_exit t s"

fun run :: "'a state \<Rightarrow> 'a event list \<Rightarrow> error + 'a state" where
  "run s [] = Inr s"
| "run s (e # es) = and_then (step s e) (\<lambda>s1. run s1 es)"

section \<open>Concurrent destructors\<close>

text \<open>
  Several threads each destroy one handle of the same cell. The body of the destructor
  is two atomic actions: the read-modify-write \<^verbatim>\<open>--counter_->uses\<close>, whose result the
  thread keeps (\<open>seen\<close>), and, when that result is zero, the call
  \<^verbatim>\<open>owner_->destroy(counter_)\<close>. A schedule names, step by step, the thread that performs
  its next action; \<open>destroyers\<close> lists the threads that called \<^verbatim>\<open>destroy\<close>.
  \<open>destructors_start n m\<close> is the state in which \<open>n\<close> threads are about to destroy
  their handles and \<open>m\<close> further handles of the cell stay alive.
\<close>

datatype pc = BeforeDecrement | BeforeDestroy | Finished

record dthread =
  pc :: pc
  seen :: "64 word option"

record destructors =
  shared_uses :: "64 word"
  threads :: "dthread list"
  destroyers :: "nat list"

definition dtor_thread_step :: "nat \<Rightarrow> destructors \<Rightarrow> destructors" where
  "dtor_thread_step i s =
     (if i < length (threads s) then
        (case pc (threads s ! i) of
           BeforeDecrement \<Rightarrow>
             (case atomic_pre_decrement (shared_uses s) of
                (stored, observed) \<Rightarrow>
                  s\<lparr>shared_uses := stored,
                    threads := (threads s)[i :=
                      \<lparr>pc = (if observed = 0 then BeforeDestroy else Finished),
                       seen = Some observed\<rparr>]\<rparr>)
         | BeforeDestroy \<Rightarrow>
             s\<lparr>threads := (threads s)[i := (threads s ! i)\<lparr>pc := Finished\<rparr>],
               destroyers := destroyers s @ [i]\<rparr>
         | Finished \<Rightarrow> s)
      else s)"

definition interleave :: "nat list \<Rightarrow> destructors \<Rightarrow> destructors" where
  "interleave sched s = fold dtor_thread_step sched s"

definition destructors_start :: "nat \<Rightarrow> nat \<Rightarrow> destructors" where
  "destructors_start n m =
     \<lparr>shared_uses = of_nat (n + m),
      threads = replicate n \<lparr>pc = BeforeDecrement, seen = None\<rparr>,
      destroyers = []\<rparr>"

text \<open>
  The threads whose decrement yielded zero, those that have not decremented yet, and
  those that saw zero and have not called \<^verbatim>\<open>destroy\<close> yet.
\<close>

definition zero_observers :: "destructors \<Rightarrow> nat" where
  "zero_observers s = length (filter (\<lambda>t. seen t = Some 0) (threads s))"

definition pending :: "destructors \<Rightarrow> nat" where
  "pending s = length (filter (\<lambda>t. pc t = BeforeDecrement) (threads s))"

definition at_destroy :: "destructors \<Rightarrow> nat" where
  "at_destroy s = length (filter (\<lambda>t. pc t = BeforeDestroy) (threads s))"

definition destructors_inv :: "nat \<Rightarrow> nat \<Rightarrow> destructors \<Rightarrow> bool" where
  "destructors_inv n m s \<longleftrightarrow>
     length (threads s) = n \<and>
     unat (shared_uses s) = m + pending s \<and>
     zero_observers s = (if m + pending s = 0 \<and> 0 < n then 1 else 0) \<and>
     zero_observers s = at_destroy s + length (destroyers s)"

section \<open>The inline representation\<close>









section \<open>Consistent states\<close>

text \<open>
  What the operations keep true of a state. \<open>fl\<close> lists the handles whose members exist
  while the object itself is not in \<open>handles\<close>: a handle under construction (its
  \<^verbatim>\<open>owner_\<close> initialised, its \<^verbatim>\<open>counter_\<close> not yet, written \<open>None\<close>) or under
  destruction.
  \<^item> \<open>inv_ids\<close>: handle objects and \<^verbatim>\<open>thread_local\<close> variables are distinct, and no two
    \<^verbatim>\<open>thread_local\<close> variables hold the same pool.
  \<^item> \<open>inv_counts\<close>: the use-count of every cell is the number of handles that refer to
    it, and is not zero.
  \<^item> \<open>inv_handles\<close>: the cell of a handle is a chunk in use of the pool its owner names.
  \<^item> \<open>inv_pools\<close>: the count of every pool is the number of pointers to it; a pool
    exists exactly while that number is positive; no mutex is held between operations.
  \<^item> \<open>inv_chunks\<close>: the free chunks of a pool are chunks of it, and are exactly its
    chunks that hold no cell; all chunks lie below \<open>heap_top\<close>.
  \<^item> \<open>inv_disjoint\<close>: pools share no chunk.
  \<^item> \<open>inv_trace\<close>: a chunk was constructed in a pool once more than it was freed to it
    while it is in use there, and as often otherwise.
\<close>

definition live_handles :: "handle list \<Rightarrow> 'a state \<Rightarrow> handle list" where
  "live_handles fl s = map snd (handles s) @ fl"

definition cell_refs :: "addr \<Rightarrow> handle list \<Rightarrow> nat" where
  "cell_refs a hs = length (filter (\<lambda>x. counter x = Some a) hs)"

definition owner_refs :: "pool_id \<Rightarrow> handle list \<Rightarrow> nat" where
  "owner_refs p hs = length (filter (\<lambda>x. owner x = p) hs)"

definition tls_refs :: "pool_id \<Rightarrow> ((thread_id \<times> type_id) \<times> pool_id) list \<Rightarrow> nat" where
  "tls_refs p es = length (filter (\<lambda>q. q = p) (map snd es))"

definition pool_refs :: "pool_id \<Rightarrow> handle list \<Rightarrow> 'a state \<Rightarrow> nat" where
  "pool_refs p fl s = tls_refs p (tls s) + owner_refs p (live_handles fl s)"

definition in_use :: "pool_id \<Rightarrow> addr \<Rightarrow> 'a state \<Rightarrow> bool" where
  "in_use p a s =
     (case pools s p of
        None \<Rightarrow> False
      | Some P \<Rightarrow> a \<in> set (chunks (pool P)) \<and> a \<notin> set (free_list (pool P)))"

definition inv_ids :: "'a state \<Rightarrow> bool" where
  "inv_ids s \<longleftrightarrow>
     distinct (map fst (handles s)) \<and> distinct (map fst (tls s)) \<and> distinct (map snd (tls s))"

definition inv_counts :: "handle list \<Rightarrow> 'a state \<Rightarrow> bool" where
  "inv_counts fl s \<longleftrightarrow>
     (\<forall>a c. cells s a = Some c \<longrightarrow>
        unat (uses c) = cell_refs a (live_handles fl s) \<and> 0 < cell_refs a (live_handles fl s))"

definition inv_handles :: "handle list \<Rightarrow> 'a state \<Rightarrow> bool" where
  "inv_handles fl s \<longleftrightarrow>
     (\<forall>x \<in> set (live_handles fl s). \<forall>a. counter x = Some a \<longrightarrow> in_use (owner x) a s)"

definition inv_pools :: "handle list \<Rightarrow> 'a state \<Rightarrow> bool" where
  "inv_pools fl s \<longleftrightarrow>
     (\<forall>p. pools s p = None \<longrightarrow> pool_refs p fl s = 0) \<and>
     (\<forall>p P. pools s p = Some P \<longrightarrow>
        use_count s p = int (pool_refs p fl s) \<and> 0 < pool_refs p fl s \<and>
        \<not> mutex P \<and> p < next_pool s)"

definition inv_chunks :: "'a state \<Rightarrow> bool" where
  "inv_chunks s \<longleftrightarrow>
     (\<forall>p P. pools s p = Some P \<longrightarrow>
        set (free_list (pool P)) \<subseteq> set (chunks (pool P)) \<and>
        distinct (free_list (pool P)) \<and>
        (\<forall>a \<in> set (chunks (pool P)).
           a < heap_top s \<and> ((cells s a = None) = (a \<in> set (free_list (pool P))))))"

definition inv_disjoint :: "'a state \<Rightarrow> bool" where
  "inv_disjoint s \<longleftrightarrow>
     (\<forall>p q P Q. pools s p = Some P \<longrightarrow> pools s q = Some Q \<longrightarrow> p \<noteq> q \<longrightarrow>
        set (chunks (pool P)) \<inter> set (chunks (pool Q)) = {})"

definition inv_trace :: "'a state \<Rightarrow> bool" where
  "inv_trace s \<longleftrightarrow>
     (\<forall>p a. count_list (trace s) (Constructed p a) =
            count_list (trace s) (Freed p a) + (if in_use p a s then 1 else 0))"

definition consistent_with :: "handle list \<Rightarrow> 'a state \<Rightarrow> bool" where
  "consistent_with fl s \<longleftrightarrow>
     inv_ids s \<and> inv_counts fl s \<and> inv_handles fl s \<and> inv_pools fl s \<and>
     inv_chunks s \<and> inv_disjoint s \<and> inv_trace s"

definition consistent :: "'a state \<Rightarrow> bool" where
  "consistent s \<longleftrightarrow> consistent_with [] s"

section \<open>Properties\<close>

subsection \<open>Sequencing\<close>

lemma and_then_Inl [simp]: "and_then (Inl e) f = Inl e"
  by (simp add: and_then_def)

lemma and_then_Inr [simp]: "and_then (Inr x) f = f x"
  by (simp add: and_then_def)

lemma and_then_eq_Inr: "(and_then m f = Inr y) = (\<exists>x. m = Inr x \<and> f x = Inr y)"
  by (cases m) simp_all

lemma map_of_fresh: "k \<notin> fst ` set xs \<Longrightarrow> map_of xs k = None"
  by (simp add: map_of_eq_None_iff)

text \<open>The definitions a concrete run unfolds.\<close>

lemmas op_defs = init_def SmallImpl_ctor_def SmallImpl_copy_def SmallImpl_dtor_def
  SmallImpl_dtor_body_def SmallImpl_data_def read_ref_def getPool_def shared_ptr_copy_def
  shared_ptr_release_def ParallelPool_dtor_def ParallelPool_construct_def
  ParallelPool_destroy_def mutex_lock_def mutex_unlock_def pool_construct_def
  pool_destroy_def object_pool_malloc_def object_pool_free_def AtomicCounter_ctor_def
  atomic_pre_increment_def atomic_pre_decrement_def thread_exit_def Let_def

subsection \<open>Classifier\<close>

lemma inlined_object_eq:
  "inlined_object T =
     Some (is_trivially_copyable_v T \<and> sizeof T \<le> MAX_SMALL_SIZE \<or> is_shared_ptr T)"
  by (cases T) (simp_all add: inlined_object_def inlined_object_matches_def)

text \<open>
  Claim C1, amended. For every payload type \<open>T\<close> other than a trivially copyable array
  type of at most 64 bytes, \<^verbatim>\<open>Small<T>\<close> resolves to exactly one variant, and its flag
  \<^verbatim>\<open>inlined\<close> is true exactly when \<open>T\<close> is trivially copyable with size at most 64
  bytes, or \<open>T\<close> is a \<^verbatim>\<open>std::shared_ptr\<close> (whatever its size); every other such type
  gets the pooled variant. For a trivially copyable array type of at most 64 bytes the
  inline specialisation is selected and the class is ill-formed.
\<close>

theorem Small_inlined_iff:
  "if is_array_v T \<and> is_trivially_copyable_v T \<and> sizeof T \<le> 64
   then SmallImpl_selected T = Some Inline \<and> Small T = None
   else (\<exists>v. Small T = Some v \<and>
           (\<forall>w. Small T = Some w \<longleftrightarrow> w = v) \<and>
           inlined v = (is_trivially_copyable_v T \<and> sizeof T \<le> 64 \<or> is_shared_ptr T) \<and>
           v = (if is_trivially_copyable_v T \<and> sizeof T \<le> 64 \<or> is_shared_ptr T
                then Inline else Pooled))"
proof (cases "is_trivially_copyable_v T \<and> sizeof T \<le> 64 \<or> is_shared_ptr T")
  case True
  then have sel: "SmallImpl_selected T = Some Inline"
    by (simp add: SmallImpl_selected_def inlined_object_v_def inlined_object_eq
        MAX_SMALL_SIZE_def)
  have "is_shared_ptr T \<Longrightarrow> \<not> is_array_v T"
    by (cases T) simp_all
  with True sel show ?thesis
    by (auto simp: Small_def SmallImpl_def)
next
  case False
  then have sel: "SmallImpl_selected T = Some Pooled"
    by (simp add: SmallImpl_selected_def inlined_object_v_def inlined_object_eq
        MAX_SMALL_SIZE_def)
  with False show ?thesis
    by (auto simp: Small_def SmallImpl_def)
qed

text \<open>
  The types of the tests of \<^verbatim>\<open>main.cpp\<close>: \<^verbatim>\<open>int\<close> is inline, \<^verbatim>\<open>std::string\<close> (32 bytes,
  not trivially copyable) is pooled, \<^verbatim>\<open>std::shared_ptr<tt>\<close> is inline; and an array of
  100 \<^verbatim>\<open>int\<close> is pooled.
\<close>

theorem Small_inlined_iff_witness:
  "Small (Other True True 4) = Some Inline \<and>
   Small (Other False True 32) = Some Pooled \<and>
   Small (SharedPtr (Other True True 1) 16) = Some Inline \<and>
   Small (Array (Other True True 4) 100) = Some Pooled"
  using Small_inlined_iff [of "Other True True 4"]
    Small_inlined_iff [of "Other False True 32"]
    Small_inlined_iff [of "SharedPtr (Other True True 1) 16"]
    Small_inlined_iff [of "Array (Other True True 4) 100"]
  by simp

text \<open>
  As Claim C1 is written, every payload type resolves to one of the two variants. The
  array of 16 \<^verbatim>\<open>int\<close> is trivially copyable and 64 bytes large, so the trait holds and the
  inline specialisation is selected; its accessors would return an array, and
  \<^verbatim>\<open>Small<int[16]>::inlined\<close> does not compile.
\<close>

theorem Small_int16_ill_formed:
  "is_trivially_copyable_v (Array (Other True True 4) 16) \<and>
   sizeof (Array (Other True True 4) 16) = 64 \<and>
   inlined_object_v (Array (Other True True 4) 16) = Some True \<and>
   Small (Array (Other True True 4) 16) = None"
  by (simp add: Small_def SmallImpl_def SmallImpl_selected_def inlined_object_v_def
      inlined_object_def inlined_object_matches_def MAX_SMALL_SIZE_def)

subsection \<open>Primitive steps\<close>

lemma mutex_lock_Some:
  "pools s p = Some P \<Longrightarrow>
   mutex_lock p s =
     (if mutex P then Inl deadlock
      else Inr (s\<lparr>pools := (pools s)(p \<mapsto> P\<lparr>mutex := True\<rparr>), trace := trace s @ [Lock p]\<rparr>))"
  by (simp add: mutex_lock_def)

lemma mutex_lock_Inr:
  assumes "mutex_lock p s = Inr s1"
  shows "\<exists>P. pools s p = Some P \<and> \<not> mutex P \<and>
           s1 = s\<lparr>pools := (pools s)(p \<mapsto> P\<lparr>mutex := True\<rparr>), trace := trace s @ [Lock p]\<rparr>"
  using assms by (auto simp: mutex_lock_def split: option.splits if_splits)

lemma mutex_unlock_Inr:
  assumes "mutex_unlock p s = Inr s1"
  shows "\<exists>P. pools s p = Some P \<and> mutex P \<and>
           s1 = s\<lparr>pools := (pools s)(p \<mapsto> P\<lparr>mutex := False\<rparr>), trace := trace s @ [Unlock p]\<rparr>"
  using assms by (auto simp: mutex_unlock_def split: option.splits if_splits)

lemma pool_destroy_Inr:
  assumes "pool_destroy p a s = Inr s1"
  shows "\<exists>P. pools s p = Some P \<and> a \<in> set (chunks (pool P)) \<and>
           a \<notin> set (free_list (pool P)) \<and> cells s a \<noteq> None \<and>
           s1 = s\<lparr>cells := (cells s)(a := None),
                  pools := (pools s)(p \<mapsto> P\<lparr>pool := object_pool_free a (pool P)\<rparr>),
                  trace := trace s @ [Destroyed a, Freed p a]\<rparr>"
  using assms by (auto simp: pool_destroy_def split: option.splits if_splits)

lemma ParallelPool_destroy_Inr:
  assumes "ParallelPool_destroy p a s = Inr s'"
  shows "\<exists>P. pools s p = Some P \<and> \<not> mutex P \<and> a \<in> set (chunks (pool P)) \<and>
             a \<notin> set (free_list (pool P)) \<and> cells s a \<noteq> None \<and>
             s' = s\<lparr>cells := (cells s)(a := None),
                    pools := (pools s)(p \<mapsto> P\<lparr>pool := object_pool_free a (pool P),
                                               mutex := False\<rparr>),
                    trace := trace s @ [Lock p, Destroyed a, Freed p a, Unlock p]\<rparr>"
proof -
  from assms obtain s1 s2 where
    l: "mutex_lock p s = Inr s1" and d: "pool_destroy p a s1 = Inr s2" and
    u: "mutex_unlock p s2 = Inr s'"
    by (auto simp: ParallelPool_destroy_def and_then_eq_Inr)
  from mutex_lock_Inr [OF l] obtain P where
    P: "pools s p = Some P" "\<not> mutex P" and
    s1: "s1 = s\<lparr>pools := (pools s)(p \<mapsto> P\<lparr>mutex := True\<rparr>), trace := trace s @ [Lock p]\<rparr>"
    by blast
  from pool_destroy_Inr [OF d] have
    mem: "a \<in> set (chunks (pool P))" "a \<notin> set (free_list (pool P))" "cells s a \<noteq> None" and
    s2: "s2 = s1\<lparr>cells := (cells s1)(a := None),
                  pools := (pools s1)(p \<mapsto> P\<lparr>mutex := True,
                                             pool := object_pool_free a (pool P)\<rparr>),
                  trace := trace s1 @ [Destroyed a, Freed p a]\<rparr>"
    by (auto simp: s1)
  from mutex_unlock_Inr [OF u] have
    "s' = s2\<lparr>pools := (pools s2)(p \<mapsto> P\<lparr>pool := object_pool_free a (pool P),
                                          mutex := False\<rparr>),
             trace := trace s2 @ [Unlock p]\<rparr>"
    by (auto simp: s2)
  then have "s' = s\<lparr>cells := (cells s)(a := None),
                    pools := (pools s)(p \<mapsto> P\<lparr>pool := object_pool_free a (pool P),
                                               mutex := False\<rparr>),
                    trace := trace s @ [Lock p, Destroyed a, Freed p a, Unlock p]\<rparr>"
    by (simp add: s2 s1)
  with P mem show ?thesis by blast
qed

lemma ParallelPool_destroy_ok:
  assumes "pools s p = Some P" "\<not> mutex P" "a \<in> set (chunks (pool P))"
    "a \<notin> set (free_list (pool P))" "cells s a = Some c"
  shows "ParallelPool_destroy p a s =
           Inr (s\<lparr>cells := (cells s)(a := None),
                  pools := (pools s)(p \<mapsto> P\<lparr>pool := object_pool_free a (pool P),
                                               mutex := False\<rparr>),
                  trace := trace s @ [Lock p, Destroyed a, Freed p a, Unlock p]\<rparr>)"
  using assms
  by (simp add: ParallelPool_destroy_def mutex_lock_def mutex_unlock_def pool_destroy_def)

lemma shared_ptr_release_Inr:
  assumes "shared_ptr_release p s = Inr s'"
  shows "(use_count s p \<noteq> 1 \<and> s' = s\<lparr>use_count := (use_count s)(p := use_count s p - 1)\<rparr>) \<or>
         (use_count s p = 1 \<and>
          (\<exists>P. pools s p = Some P \<and>
             s' = s\<lparr>use_count := (use_count s)(p := 0),
                    cells := (\<lambda>a. if a \<in> set (chunks (pool P)) then None else cells s a),
                    pools := (pools s)(p := None),
                    trace := trace s @
                      map Destroyed
                        (filter (\<lambda>a. a \<notin> set (free_list (pool P))) (chunks (pool P))) @
                      [PoolDeleted p]\<rparr>))"
  using assms
  by (auto simp: shared_ptr_release_def ParallelPool_dtor_def Let_def
        split: option.splits if_splits cong: if_cong)

lemma shared_ptr_release_trace:
  assumes "shared_ptr_release p s = Inr s'"
  shows "\<exists>tail. trace s' = trace s @ tail \<and>
           (\<forall>q b. Lock q \<notin> set tail \<and> Unlock q \<notin> set tail \<and> Freed q b \<notin> set tail)"
  using shared_ptr_release_Inr [OF assms] by auto

lemma SmallImpl_dtor_body_Inr:
  assumes "SmallImpl_dtor_body x s = Inr s2"
  shows "\<exists>a c. counter x = Some a \<and> cells s a = Some c \<and>
           (if uses c - 1 = 0
            then (\<exists>P. pools s (owner x) = Some P \<and> \<not> mutex P \<and>
                    a \<in> set (chunks (pool P)) \<and> a \<notin> set (free_list (pool P)) \<and>
                    s2 = s\<lparr>cells := (cells s)(a := None),
                           pools := (pools s)(owner x \<mapsto>
                                      P\<lparr>pool := object_pool_free a (pool P),
                                        mutex := False\<rparr>),
                           trace := trace s @ [Lock (owner x), Destroyed a,
                                               Freed (owner x) a, Unlock (owner x)]\<rparr>)
            else s2 = s\<lparr>cells := (cells s)(a \<mapsto> c\<lparr>uses := uses c - 1\<rparr>)\<rparr>)"
proof -
  from assms obtain a where a: "counter x = Some a"
    by (auto simp: SmallImpl_dtor_body_def split: option.splits)
  from assms a obtain c where c: "cells s a = Some c"
    by (auto simp: SmallImpl_dtor_body_def split: option.splits)
  show ?thesis
  proof (cases "uses c - 1 = 0")
    case True
    with assms a c have
      "ParallelPool_destroy (owner x) a (s\<lparr>cells := (cells s)(a \<mapsto> c\<lparr>uses := uses c - 1\<rparr>)\<rparr>) = Inr s2"
      by (simp add: SmallImpl_dtor_body_def atomic_pre_decrement_def)
    from ParallelPool_destroy_Inr [OF this] a c True show ?thesis
      by auto
  next
    case False
    with assms a c show ?thesis
      by (simp add: SmallImpl_dtor_body_def atomic_pre_decrement_def)
  qed
qed

lemma SmallImpl_copy_Inr:
  assumes "SmallImpl_copy src dst s = Inr s'"
  shows "\<exists>item a c.
           map_of (handles s) src = Some item \<and> dst \<notin> fst ` set (handles s) \<and>
           counter item = Some a \<and> cells s a = Some c \<and>
           s' = s\<lparr>use_count := (use_count s)(owner item := use_count s (owner item) + 1),
                  cells := (cells s)(a \<mapsto> c\<lparr>uses := uses c + 1\<rparr>),
                  handles := (dst, \<lparr>owner = owner item, counter = Some a\<rparr>) # handles s\<rparr>"
proof -
  from assms obtain item where item: "map_of (handles s) src = Some item"
    by (auto simp: SmallImpl_copy_def split: option.splits)
  from assms item have fresh: "dst \<notin> fst ` set (handles s)"
    by (auto simp: SmallImpl_copy_def split: if_splits)
  from assms item fresh obtain a where a: "counter item = Some a"
    by (auto simp: SmallImpl_copy_def Let_def split: option.splits)
  from assms item fresh a obtain c where c: "cells s a = Some c"
    by (auto simp: SmallImpl_copy_def Let_def shared_ptr_copy_def split: option.splits)
  have "s' = s\<lparr>use_count := (use_count s)(owner item := use_count s (owner item) + 1),
                   cells := (cells s)(a \<mapsto> c\<lparr>uses := uses c + 1\<rparr>),
                   handles := (dst, \<lparr>owner = owner item, counter = Some a\<rparr>) # handles s\<rparr>"
    using assms item fresh a c
    by (simp add: SmallImpl_copy_def Let_def shared_ptr_copy_def atomic_pre_increment_def)
  with item fresh a c show ?thesis by blast
qed

subsection \<open>Copying a pooled handle\<close>

text \<open>
  Claim C3. Copy-constructing a pooled handle copies the pool reference (the pool's
  count goes up by one), adds exactly one to the use-count of the source's cell (modulo
  \<open>2 ^ 64\<close>, as \<^verbatim>\<open>size_t\<close> does), and stores the same cell reference: source and copy
  share one cell, \<^verbatim>\<open>data()\<close> of both is the same reference, no cell is created and no
  payload changes.
\<close>

theorem SmallImpl_copy_shares_cell:
  assumes "SmallImpl_copy src dst s = Inr s'"
  shows "\<exists>item a c.
           map_of (handles s) src = Some item \<and> counter item = Some a \<and> cells s a = Some c \<and>
           map_of (handles s') dst = Some \<lparr>owner = owner item, counter = Some a\<rparr> \<and>
           map_of (handles s') src = Some item \<and>
           use_count s' = (use_count s)(owner item := use_count s (owner item) + 1) \<and>
           cells s' = (cells s)(a \<mapsto> c\<lparr>uses := uses c + 1\<rparr>) \<and>
           dom (cells s') = dom (cells s) \<and>
           (\<forall>b. map_option data (cells s' b) = map_option data (cells s b)) \<and>
           pools s' = pools s \<and> heap_top s' = heap_top s \<and> trace s' = trace s \<and>
           SmallImpl_data src s' = Inr a \<and> SmallImpl_data dst s' = Inr a \<and>
           read_ref a s' = Inr (data c)"
proof -
  from SmallImpl_copy_Inr [OF assms] obtain item a c where
    item: "map_of (handles s) src = Some item" and
    fresh: "dst \<notin> fst ` set (handles s)" and
    a: "counter item = Some a" and c: "cells s a = Some c" and
    s': "s' = s\<lparr>use_count := (use_count s)(owner item := use_count s (owner item) + 1),
                   cells := (cells s)(a \<mapsto> c\<lparr>uses := uses c + 1\<rparr>),
                   handles := (dst, \<lparr>owner = owner item, counter = Some a\<rparr>) # handles s\<rparr>"
    by blast
  from item fresh have ne: "src \<noteq> dst"
    by (metis map_of_fresh option.distinct(1))
  show ?thesis
    using item a c ne
    by (auto simp: s' SmallImpl_data_def read_ref_def)
qed

theorem SmallImpl_copy_shares_cell_witness:
  "\<exists>s s' :: string state.
     SmallImpl_ctor 0 0 1 ''kek'' True (Block 2) init = Inr s \<and>
     SmallImpl_copy 1 2 s = Inr s' \<and>
     SmallImpl_data 1 s' = Inr 1 \<and> SmallImpl_data 2 s' = Inr 1 \<and>
     read_ref 1 s' = Inr ''kek''"
proof -
  have "\<exists>s s' :: string state.
     SmallImpl_ctor 0 0 1 ''kek'' True (Block 2) init = Inr s \<and>
     SmallImpl_copy 1 2 s = Inr s'"
    by (simp add: op_defs)
  then obtain s s' :: "string state" where
    s: "SmallImpl_ctor 0 0 1 ''kek'' True (Block 2) init = Inr s" and
    c: "SmallImpl_copy 1 2 s = Inr s'"
    by blast
  have pre: "map_of (handles s) 1 = Some \<lparr>owner = 0, counter = Some 1\<rparr>"
    "cells s 1 = Some \<lparr>data = ''kek'', uses = 1\<rparr>"
    using s by (auto simp: op_defs)
  from SmallImpl_copy_shares_cell [OF c] pre s c show ?thesis
    by auto
qed

subsection \<open>Destroying a pooled handle\<close>

text \<open>
  Claim C4. Destroying a pooled handle takes one off the use-count of its cell. If and
  only if the value after the decrement is zero, the body calls \<^verbatim>\<open>destroy\<close> on the pool
  the handle's \<^verbatim>\<open>owner_\<close> names, which locks that pool's mutex, runs the destructor of the
  cell, puts the chunk on the pool's free list and unlocks the mutex, in this order.
  When the value is not zero the body touches neither the pool nor the log, and the
  destruction of \<^verbatim>\<open>owner_\<close> that follows never locks a pool or frees a chunk.
\<close>

theorem SmallImpl_dtor_release:
  assumes "SmallImpl_dtor h s = Inr s'"
  shows "\<exists>x a c s2 tail.
           map_of (handles s) h = Some x \<and> counter x = Some a \<and> cells s a = Some c \<and>
           SmallImpl_dtor_body x (s\<lparr>handles := filter (\<lambda>e. fst e \<noteq> h) (handles s)\<rparr>) =
             Inr s2 \<and>
           (if uses c - 1 = 0
            then (\<exists>P. pools s (owner x) = Some P \<and>
                    trace s2 = trace s @ [Lock (owner x), Destroyed a,
                                          Freed (owner x) a, Unlock (owner x)] \<and>
                    cells s2 = (cells s)(a := None) \<and>
                    pools s2 = (pools s)(owner x \<mapsto>
                      P\<lparr>pool := (pool P)\<lparr>free_list := insort a (free_list (pool P))\<rparr>,
                        mutex := False\<rparr>))
            else trace s2 = trace s \<and> pools s2 = pools s \<and>
                 cells s2 = (cells s)(a \<mapsto> c\<lparr>uses := uses c - 1\<rparr>)) \<and>
           shared_ptr_release (owner x) s2 = Inr s' \<and>
           map_of (handles s') h = None \<and>
           trace s' = trace s2 @ tail \<and>
           (\<forall>q b. Lock q \<notin> set tail \<and> Unlock q \<notin> set tail \<and> Freed q b \<notin> set tail)"
proof -
  from assms obtain x where x: "map_of (handles s) h = Some x"
    by (auto simp: SmallImpl_dtor_def split: option.splits)
  define s0 where "s0 = s\<lparr>handles := filter (\<lambda>e. fst e \<noteq> h) (handles s)\<rparr>"
  from assms x obtain s2 where
    body: "SmallImpl_dtor_body x s0 = Inr s2" and
    rel: "shared_ptr_release (owner x) s2 = Inr s'"
    by (auto simp: SmallImpl_dtor_def and_then_eq_Inr s0_def)
  from SmallImpl_dtor_body_Inr [OF body] obtain a c where
    a: "counter x = Some a" and c: "cells s0 a = Some c" and
    eff: "if uses c - 1 = 0
          then (\<exists>P. pools s0 (owner x) = Some P \<and> \<not> mutex P \<and>
                  a \<in> set (chunks (pool P)) \<and> a \<notin> set (free_list (pool P)) \<and>
                  s2 = s0\<lparr>cells := (cells s0)(a := None),
                          pools := (pools s0)(owner x \<mapsto>
                                     P\<lparr>pool := object_pool_free a (pool P),
                                       mutex := False\<rparr>),
                          trace := trace s0 @ [Lock (owner x), Destroyed a,
                                               Freed (owner x) a, Unlock (owner x)]\<rparr>)
          else s2 = s0\<lparr>cells := (cells s0)(a \<mapsto> c\<lparr>uses := uses c - 1\<rparr>)\<rparr>"
    by blast
  from c have c': "cells s a = Some c"
    by (simp add: s0_def)
  from shared_ptr_release_trace [OF rel] obtain tail where
    tail: "trace s' = trace s2 @ tail"
      "\<forall>q b. Lock q \<notin> set tail \<and> Unlock q \<notin> set tail \<and> Freed q b \<notin> set tail"
    by auto
  have "handles s2 = filter (\<lambda>e. fst e \<noteq> h) (handles s)"
    using eff by (auto simp: s0_def split: if_splits)
  then have gone: "map_of (handles s') h = None"
    using shared_ptr_release_Inr [OF rel]
    by (auto simp: map_of_eq_None_iff)
  have mid: "if uses c - 1 = 0
            then (\<exists>P. pools s (owner x) = Some P \<and>
                    trace s2 = trace s @ [Lock (owner x), Destroyed a,
                                          Freed (owner x) a, Unlock (owner x)] \<and>
                    cells s2 = (cells s)(a := None) \<and>
                    pools s2 = (pools s)(owner x \<mapsto>
                      P\<lparr>pool := (pool P)\<lparr>free_list := insort a (free_list (pool P))\<rparr>,
                        mutex := False\<rparr>))
            else trace s2 = trace s \<and> pools s2 = pools s \<and>
                 cells s2 = (cells s)(a \<mapsto> c\<lparr>uses := uses c - 1\<rparr>)"
    using eff by (auto simp: object_pool_free_def s0_def split: if_splits)
  from x a c' body rel mid gone tail show ?thesis
    unfolding s0_def by blast
qed


theorem SmallImpl_dtor_release_witness:
  "\<exists>s s1 s2 :: string state.
     run init [New 0 0 1 ''kek'' True (Block 2), Copy 0 1 2] = Inr s \<and>
     SmallImpl_dtor 1 s = Inr s1 \<and> trace s1 = trace s \<and>
     map_option uses (cells s1 1) = Some 1 \<and>
     SmallImpl_dtor 2 s1 = Inr s2 \<and>
     trace s2 = trace s1 @ [Lock 0, Destroyed 1, Freed 0 1, Unlock 0] \<and>
     cells s2 1 = None \<and> map_of (handles s2) 2 = None"
proof -
  have "\<exists>s s1 s2 :: string state.
     run init [New 0 0 1 ''kek'' True (Block 2), Copy 0 1 2] = Inr s \<and>
     SmallImpl_dtor 1 s = Inr s1 \<and> SmallImpl_dtor 2 s1 = Inr s2"
    by (simp add: op_defs)
  then obtain s s1 s2 :: "string state" where
    s: "run init [New 0 0 1 ''kek'' True (Block 2), Copy 0 1 2] = Inr s" and
    d1: "SmallImpl_dtor 1 s = Inr s1" and d2: "SmallImpl_dtor 2 s1 = Inr s2"
    by blast
  have pre: "trace s1 = trace s" "map_option uses (cells s1 1) = Some 1"
    "cells s2 1 = None"
    using s d1 d2 by (auto simp: op_defs)
  from SmallImpl_dtor_release [OF d2] have gone: "map_of (handles s2) 2 = None"
    by blast
  have "trace s2 = trace s1 @ [Lock 0, Destroyed 1, Freed 0 1, Unlock 0]"
    using s d1 d2 by (auto simp: op_defs)
  with s d1 d2 pre gone show ?thesis by blast
qed

subsection \<open>Allocation failure\<close>

text \<open>
  Claim C8 says that a failure of the pool's backing allocator leaves the constructor as
  a fatal error. It does not: \<^verbatim>\<open>construct\<close> returns the null pointer, the constructor
  stores it in \<^verbatim>\<open>counter_\<close> and returns normally. Reading the handle or destroying it
  then dereferences the null pointer.
\<close>

theorem SmallImpl_ctor_out_of_memory:
  "\<exists>s :: string state.
     SmallImpl_ctor 0 0 1 ''a long string'' True OutOfMemory init = Inr s \<and>
     map_of (handles s) 1 = Some \<lparr>owner = 0, counter = None\<rparr> \<and>
     SmallImpl_data 1 s = Inl undefined_behaviour \<and>
     SmallImpl_dtor 1 s = Inl undefined_behaviour"
  by (simp add: op_defs)


subsection \<open>Concurrent destructors\<close>

lemma length_filter_update:
  "i < length xs \<Longrightarrow>
   length (filter P (xs[i := y])) + (if P (xs ! i) then 1 else 0) =
   length (filter P xs) + (if P y then 1 else 0)"
proof (induction xs arbitrary: i)
  case Nil
  then show ?case by simp
next
  case (Cons x xs)
  show ?case
  proof (cases i)
    case 0
    then show ?thesis by simp
  next
    case (Suc j)
    with Cons.prems have "j < length xs" by simp
    from Cons.IH [OF this] Suc show ?thesis by simp
  qed
qed

lemma destructors_inv_start:
  assumes "n + m < 2 ^ 64"
  shows "destructors_inv n m (destructors_start n m)"
proof -
  have "unat (of_nat (n + m) :: 64 word) = n + m"
    by (rule of_nat_inverse [OF refl]) (use assms in simp)
  then show ?thesis
    by (auto simp: destructors_inv_def destructors_start_def pending_def zero_observers_def
          at_destroy_def)
qed

lemma word_pred_zero_iff: "(u - 1 = (0 :: 64 word)) = (unat u = 1)"
proof
  assume "u - 1 = 0"
  then have "u = 1" by simp
  then show "unat u = 1" by simp
next
  assume "unat u = 1"
  then have "u = 1" by (metis unat_1 word_unat_eq_iff)
  then show "u - 1 = 0" by simp
qed

lemma destructors_inv_step:
  assumes inv: "destructors_inv n m s"
  shows "destructors_inv n m (dtor_thread_step i s)"
proof (cases "i < length (threads s)")
  case False
  with inv show ?thesis by (simp add: dtor_thread_step_def)
next
  case True
  let ?t = "threads s ! i"
  from inv have len: "length (threads s) = n"
    and cnt: "unat (shared_uses s) = m + pending s"
    and z: "zero_observers s = (if m + pending s = 0 \<and> 0 < n then 1 else 0)"
    and d: "zero_observers s = at_destroy s + length (destroyers s)"
    by (simp_all add: destructors_inv_def)
  from True len have n: "0 < n" by auto
  show ?thesis
  proof (cases "pc ?t")
    case BeforeDecrement
    define z where "z = shared_uses s - 1"
    define y where "y = \<lparr>pc = (if z = 0 then BeforeDestroy else Finished), seen = Some z\<rparr>"
    define s' where "s' = s\<lparr>shared_uses := z, threads := (threads s)[i := y]\<rparr>"
    have step: "dtor_thread_step i s = s'"
      using True BeforeDecrement
      by (simp add: dtor_thread_step_def atomic_pre_decrement_def s'_def y_def z_def)
    have y: "pc y \<noteq> BeforeDecrement" "(seen y = Some 0) = (z = 0)"
      "(pc y = BeforeDestroy) = (z = 0)"
      by (simp_all add: y_def)
    have p: "pending s' + 1 = pending s"
      using length_filter_update [OF True, of "\<lambda>t. pc t = BeforeDecrement" y]
        BeforeDecrement y
      by (simp add: pending_def s'_def)
    then have pos: "0 < pending s" by simp
    with cnt have nz: "shared_uses s \<noteq> 0"
      by (metis add_is_0 less_numeral_extra(3) unat_eq_zero)
    then have u: "unat z = unat (shared_uses s) - 1"
      unfolding z_def by (rule unat_minus_one)
    have "(z = 0) = (unat (shared_uses s) = 1)"
      unfolding z_def by (rule word_pred_zero_iff)
    with cnt p have zero: "(z = 0) = (m + pending s' = 0)"
      by auto
    from z pos have z0: "zero_observers s = 0" by simp
    with d have a0: "at_destroy s = 0" "destroyers s = []" by simp_all
    have notz: "seen ?t \<noteq> Some 0"
      using z0 True nth_mem [OF True]
      by (auto simp: zero_observers_def filter_empty_conv)
    have nota: "pc ?t \<noteq> BeforeDestroy"
      using BeforeDecrement by simp
    have z': "zero_observers s' = (if z = 0 then 1 else 0)"
      using length_filter_update [OF True, of "\<lambda>t. seen t = Some 0" y] notz z0 y
      by (simp add: zero_observers_def s'_def)
    have a': "at_destroy s' = (if z = 0 then 1 else 0)"
      using length_filter_update [OF True, of "\<lambda>t. pc t = BeforeDestroy" y] nota a0 y
      by (simp add: at_destroy_def s'_def)
    have "length (threads s') = n" "shared_uses s' = z" "destroyers s' = []"
      using len a0 by (simp_all add: s'_def)
    then show ?thesis
      unfolding step destructors_inv_def
      using cnt p u zero z' a' n by simp
  next
    case BeforeDestroy
    let ?y = "?t\<lparr>pc := Finished\<rparr>"
    let ?s = "s\<lparr>threads := (threads s)[i := ?y], destroyers := destroyers s @ [i]\<rparr>"
    have step: "dtor_thread_step i s = ?s"
      using True BeforeDestroy by (simp add: dtor_thread_step_def)
    have p: "pending ?s = pending s"
      using length_filter_update [OF True, of "\<lambda>t. pc t = BeforeDecrement" ?y] BeforeDestroy
      by (simp add: pending_def)
    have z': "zero_observers ?s = zero_observers s"
      using length_filter_update [OF True, of "\<lambda>t. seen t = Some 0" ?y]
      by (simp add: zero_observers_def)
    have a': "at_destroy ?s + 1 = at_destroy s"
      using length_filter_update [OF True, of "\<lambda>t. pc t = BeforeDestroy" ?y] BeforeDestroy
      by (simp add: at_destroy_def)
    show ?thesis
      unfolding step destructors_inv_def
      using len cnt p z z' a' d by simp
  next
    case Finished
    with True inv show ?thesis by (simp add: dtor_thread_step_def)
  qed
qed

lemma destructors_inv_interleave:
  "destructors_inv n m s \<Longrightarrow> destructors_inv n m (interleave sched s)"
  unfolding interleave_def
  by (induction sched arbitrary: s) (simp_all add: destructors_inv_step)

text \<open>
  Claim C9. Whatever the schedule, at most one of the destroying threads sees its
  decrement yield zero, and only such a thread calls \<^verbatim>\<open>destroy\<close>. When the destroyed
  handles are all the handles of the cell (\<open>m = 0\<close>), exactly one thread sees zero as
  soon as every thread has decremented, and \<^verbatim>\<open>destroy\<close> has been called exactly once when
  all have finished. Each thread's decrement and test is the single atomic
  \<open>atomic_pre_decrement\<close>; no lock is involved.
\<close>

theorem one_thread_observes_zero:
  assumes "n + m < 2 ^ 64"
  shows "(let s = interleave sched (destructors_start n m) in
          zero_observers s \<le> 1 \<and>
          length (destroyers s) \<le> zero_observers s \<and>
          (zero_observers s = 1 \<longleftrightarrow> 0 < n \<and> m = 0 \<and> pending s = 0) \<and>
          (0 < n \<and> m = 0 \<and> pending s = 0 \<and> at_destroy s = 0 \<longrightarrow>
             length (destroyers s) = 1))"
proof -
  have "destructors_inv n m (interleave sched (destructors_start n m))"
    by (rule destructors_inv_interleave [OF destructors_inv_start [OF assms]])
  then show ?thesis
    by (auto simp: destructors_inv_def Let_def split: if_splits)
qed

theorem one_thread_observes_zero_witness:
  "zero_observers (interleave [2, 0, 1, 1, 0] (destructors_start 3 0)) = 1 \<and>
   destroyers (interleave [2, 0, 1, 1, 0] (destructors_start 3 0)) = [1] \<and>
   pending (interleave [2, 0, 1, 1, 0] (destructors_start 3 0)) = 0 \<and>
   zero_observers (interleave [1, 0] (destructors_start 2 1)) = 0"
proof -
  have r3: "replicate 3 x = [x, x, x]" for x :: dthread
    by (simp add: numeral_3_eq_3)
  have r2: "replicate 2 x = [x, x]" for x :: dthread
    by (simp add: numeral_2_eq_2)
  show ?thesis
    using one_thread_observes_zero [of 3 0 "[2, 0, 1, 1, 0]"]
    by (simp add: interleave_def destructors_start_def dtor_thread_step_def
          atomic_pre_decrement_def zero_observers_def pending_def at_destroy_def r3 r2)
qed

subsection \<open>Reading an inline handle\<close>





subsection \<open>Consistency is kept\<close>

lemma cell_refs_Nil [simp]: "cell_refs a [] = 0"
  by (simp add: cell_refs_def)

lemma cell_refs_Cons [simp]:
  "cell_refs a (x # hs) = (if counter x = Some a then 1 else 0) + cell_refs a hs"
  by (simp add: cell_refs_def)

lemma cell_refs_append [simp]: "cell_refs a (hs @ hs') = cell_refs a hs + cell_refs a hs'"
  by (simp add: cell_refs_def)

lemma owner_refs_Nil [simp]: "owner_refs p [] = 0"
  by (simp add: owner_refs_def)

lemma owner_refs_Cons [simp]:
  "owner_refs p (x # hs) = (if owner x = p then 1 else 0) + owner_refs p hs"
  by (simp add: owner_refs_def)

lemma owner_refs_append [simp]: "owner_refs p (hs @ hs') = owner_refs p hs + owner_refs p hs'"
  by (simp add: owner_refs_def)

lemma tls_refs_Nil [simp]: "tls_refs p [] = 0"
  by (simp add: tls_refs_def)

lemma tls_refs_Cons [simp]:
  "tls_refs p (e # es) = (if snd e = p then 1 else 0) + tls_refs p es"
  by (simp add: tls_refs_def)

lemma cell_refs_pos_iff: "(0 < cell_refs a hs) = (\<exists>x \<in> set hs. counter x = Some a)"
  by (auto simp: cell_refs_def filter_empty_conv)

lemma owner_refs_pos_iff: "(0 < owner_refs p hs) = (\<exists>x \<in> set hs. owner x = p)"
  by (auto simp: owner_refs_def filter_empty_conv)

lemma tls_refs_pos_iff: "(0 < tls_refs p es) = (\<exists>e \<in> set es. snd e = p)"
  by (auto simp: tls_refs_def filter_empty_conv)

lemma cell_refs_le_length: "cell_refs a hs \<le> length hs"
  by (simp add: cell_refs_def)

lemma consistent_init: "consistent init"
  by (simp add: consistent_def consistent_with_def init_def inv_ids_def inv_counts_def inv_handles_def
        inv_pools_def inv_chunks_def inv_disjoint_def inv_trace_def live_handles_def
        pool_refs_def in_use_def)

text \<open>Consequences of the invariant.\<close>

lemma cell_has_handle:
  assumes "inv_counts fl s" "cells s a = Some c"
  shows "\<exists>x \<in> set (live_handles fl s). counter x = Some a"
proof -
  from assms have "0 < cell_refs a (live_handles fl s)"
    by (simp add: inv_counts_def)
  then show ?thesis
    by (simp add: cell_refs_pos_iff)
qed

lemma cell_in_use:
  assumes "inv_counts fl s" "inv_handles fl s" "cells s a = Some c"
  shows "\<exists>p. in_use p a s"
  using cell_has_handle [OF assms(1,3)] assms(2)
  by (auto simp: inv_handles_def)

lemma in_use_cell:
  assumes "inv_chunks s" "in_use p a s"
  shows "cells s a \<noteq> None \<and> a < heap_top s"
  using assms by (auto simp: inv_chunks_def in_use_def split: option.splits)

lemma in_use_unique:
  assumes "inv_disjoint s" "in_use p a s" "in_use q a s"
  shows "p = q"
proof (rule ccontr)
  assume ne: "p \<noteq> q"
  from assms(2,3) obtain P Q where P: "pools s p = Some P" "a \<in> set (chunks (pool P))"
    and Q: "pools s q = Some Q" "a \<in> set (chunks (pool Q))"
    by (auto simp: in_use_def split: option.splits)
  from assms(1) P(1) Q(1) ne have "set (chunks (pool P)) \<inter> set (chunks (pool Q)) = {}"
    unfolding inv_disjoint_def by blast
  with P(2) Q(2) show False by blast
qed

lemma fresh_cell_none:
  assumes "inv_counts fl s" "inv_handles fl s" "inv_chunks s" "heap_top s \<le> a"
  shows "cells s a = None"
proof (rule ccontr)
  assume "cells s a \<noteq> None"
  then obtain c where "cells s a = Some c" by auto
  from cell_in_use [OF assms(1,2) this] obtain p where "in_use p a s" ..
  from in_use_cell [OF assms(3) this] assms(4) show False by simp
qed

lemma no_cell_no_refs:
  assumes "inv_handles fl s" "inv_chunks s" "cells s a = None"
  shows "cell_refs a (live_handles fl s) = 0"
proof -
  have "\<not> (\<exists>x \<in> set (live_handles fl s). counter x = Some a)"
  proof
    assume "\<exists>x \<in> set (live_handles fl s). counter x = Some a"
    then obtain x where "x \<in> set (live_handles fl s)" "counter x = Some a" by blast
    with assms(1) have "in_use (owner x) a s" by (auto simp: inv_handles_def)
    from in_use_cell [OF assms(2) this] assms(3) show False by simp
  qed
  then have "\<not> 0 < cell_refs a (live_handles fl s)"
    unfolding cell_refs_pos_iff .
  then show ?thesis by simp
qed

lemma live_pool_of_ref:
  assumes "inv_pools fl s" "x \<in> set (live_handles fl s)"
  shows "\<exists>P. pools s (owner x) = Some P \<and> \<not> mutex P"
proof -
  from assms(2) have "0 < owner_refs (owner x) (live_handles fl s)"
    by (auto simp: owner_refs_pos_iff)
  then have "0 < pool_refs (owner x) fl s"
    by (simp add: pool_refs_def)
  with assms(1) show ?thesis
    by (cases "pools s (owner x)") (auto simp: inv_pools_def)
qed

lemma remove_key_count:
  assumes "distinct (map fst xs)" "(k, v) \<in> set xs"
  shows "length (filter Q (map snd (filter (\<lambda>e. fst e \<noteq> k) xs))) + length (filter Q [v]) =
         length (filter Q (map snd xs))"
  using assms
proof (induction xs)
  case Nil
  then show ?case by simp
next
  case (Cons e xs)
  show ?case
  proof (cases "e = (k, v)")
    case True
    with Cons.prems have "k \<notin> fst ` set xs" by simp
    then have "filter (\<lambda>e. fst e \<noteq> k) xs = xs"
      by (auto simp: filter_id_conv)
    with True show ?thesis by simp
  next
    case False
    with Cons.prems have in_xs: "(k, v) \<in> set xs" and d: "distinct (map fst xs)" by auto
    from in_xs Cons.prems(1) have "fst e \<noteq> k" by (cases e) force
    with Cons.IH [OF d in_xs] show ?thesis by simp
  qed
qed

lemma remove_key_set:
  assumes "distinct (map fst xs)" "(k, v) \<in> set xs"
  shows "insert v (snd ` set (filter (\<lambda>e. fst e \<noteq> k) xs)) = snd ` set xs"
proof -
  have eq: "snd e = v" if "e \<in> set xs" "fst e = k" for e
  proof -
    from that have "(k, snd e) \<in> set xs" by (metis prod.collapse)
    with assms(1) have "map_of xs k = Some (snd e)" by (rule map_of_is_SomeI)
    moreover from assms have "map_of xs k = Some v" by (rule map_of_is_SomeI)
    ultimately show ?thesis by simp
  qed
  show ?thesis
  proof (rule set_eqI)
    fix y
    show "(y \<in> insert v (snd ` set (filter (\<lambda>e. fst e \<noteq> k) xs))) = (y \<in> snd ` set xs)"
    proof
      assume "y \<in> insert v (snd ` set (filter (\<lambda>e. fst e \<noteq> k) xs))"
      with assms(2) show "y \<in> snd ` set xs" by force
    next
      assume "y \<in> snd ` set xs"
      then obtain e where e: "e \<in> set xs" "y = snd e" by blast
      show "y \<in> insert v (snd ` set (filter (\<lambda>e. fst e \<noteq> k) xs))"
      proof (cases "fst e = k")
        case True
        with eq e show ?thesis by simp
      next
        case False
        with e show ?thesis by simp
      qed
    qed
  qed
qed

lemma cell_refs_remove:
  assumes "distinct (map fst hs)" "(h, x) \<in> set hs"
  shows "cell_refs a (map snd (filter (\<lambda>e. fst e \<noteq> h) hs)) + cell_refs a [x] =
         cell_refs a (map snd hs)"
  unfolding cell_refs_def by (rule remove_key_count [OF assms])

lemma owner_refs_remove:
  assumes "distinct (map fst hs)" "(h, x) \<in> set hs"
  shows "owner_refs p (map snd (filter (\<lambda>e. fst e \<noteq> h) hs)) + owner_refs p [x] =
         owner_refs p (map snd hs)"
  unfolding owner_refs_def by (rule remove_key_count [OF assms])

lemma tls_refs_remove:
  assumes "distinct (map fst es)" "(k, q) \<in> set es"
  shows "tls_refs p (filter (\<lambda>e. fst e \<noteq> k) es) + length (filter (\<lambda>r. r = p) [q]) =
         tls_refs p es"
  unfolding tls_refs_def by (rule remove_key_count [OF assms])

lemma add_handle_consistent:
  assumes consistent: "consistent_with [x] s" and fresh: "h \<notin> fst ` set (handles s)"
  shows "consistent_with [] (s\<lparr>handles := (h, x) # handles s\<rparr>)"
proof -
  let ?s = "s\<lparr>handles := (h, x) # handles s\<rparr>"
  have cr: "cell_refs a (live_handles [] ?s) = cell_refs a (live_handles [x] s)" for a
    by (simp add: live_handles_def)
  have pr: "pool_refs p [] ?s = pool_refs p [x] s" for p
    by (simp add: live_handles_def pool_refs_def)
  have st: "set (live_handles [] ?s) = set (live_handles [x] s)"
    by (auto simp: live_handles_def)
  have "inv_ids ?s"
    using consistent fresh by (simp add: consistent_with_def inv_ids_def)
  moreover have "inv_counts [] ?s"
    using consistent unfolding consistent_with_def inv_counts_def cr by simp
  moreover have "inv_handles [] ?s"
    using consistent unfolding consistent_with_def inv_handles_def st by (simp add: in_use_def)
  moreover have "inv_pools [] ?s"
    using consistent unfolding consistent_with_def inv_pools_def pr by simp
  moreover have "inv_chunks ?s" "inv_disjoint ?s" "inv_trace ?s"
    using consistent by (simp_all add: consistent_with_def inv_chunks_def inv_disjoint_def inv_trace_def
        in_use_def)
  ultimately show ?thesis
    by (simp add: consistent_with_def)
qed

lemma remove_handle_consistent:
  assumes consistent: "consistent_with [] s" and x: "map_of (handles s) h = Some x"
  shows "consistent_with [x] (s\<lparr>handles := filter (\<lambda>e. fst e \<noteq> h) (handles s)\<rparr>)"
proof -
  let ?s = "s\<lparr>handles := filter (\<lambda>e. fst e \<noteq> h) (handles s)\<rparr>"
  from consistent have d: "distinct (map fst (handles s))"
    by (simp add: consistent_with_def inv_ids_def)
  from x have mem: "(h, x) \<in> set (handles s)"
    by (rule map_of_SomeD)
  have cr: "cell_refs a (live_handles [x] ?s) = cell_refs a (live_handles [] s)" for a
    using cell_refs_remove [OF d mem, of a] by (simp add: live_handles_def del: cell_refs_Cons)
  have pr: "pool_refs p [x] ?s = pool_refs p [] s" for p
    using owner_refs_remove [OF d mem, of p]
    by (simp add: live_handles_def pool_refs_def del: owner_refs_Cons)
  have st: "set (live_handles [x] ?s) = set (live_handles [] s)"
    using remove_key_set [OF d mem] by (simp add: live_handles_def)
  have "inv_ids ?s"
    using consistent by (simp add: consistent_with_def inv_ids_def distinct_map_filter)
  moreover have "inv_counts [x] ?s"
    using consistent unfolding consistent_with_def inv_counts_def cr by simp
  moreover have "inv_handles [x] ?s"
    using consistent unfolding consistent_with_def inv_handles_def st by (simp add: in_use_def)
  moreover have "inv_pools [x] ?s"
    using consistent unfolding consistent_with_def inv_pools_def pr by simp
  moreover have "inv_chunks ?s" "inv_disjoint ?s" "inv_trace ?s"
    using consistent by (simp_all add: consistent_with_def inv_chunks_def inv_disjoint_def inv_trace_def
        in_use_def)
  ultimately show ?thesis
    by (simp add: consistent_with_def)
qed

lemma remove_tls_consistent:
  assumes consistent: "consistent_with [] s" and mem: "(k, p) \<in> set (tls s)"
  shows "consistent_with [\<lparr>owner = p, counter = None\<rparr>] (s\<lparr>tls := filter (\<lambda>e. fst e \<noteq> k) (tls s)\<rparr>)"
proof -
  let ?s = "s\<lparr>tls := filter (\<lambda>e. fst e \<noteq> k) (tls s)\<rparr>"
  let ?x = "\<lparr>owner = p, counter = None\<rparr>"
  from consistent have d: "distinct (map fst (tls s))"
    by (simp add: consistent_with_def inv_ids_def)
  have pr: "pool_refs q [?x] ?s = pool_refs q [] s" for q
    using tls_refs_remove [OF d mem, of q]
    by (auto simp: pool_refs_def live_handles_def)
  have "inv_ids ?s"
    using consistent by (simp add: consistent_with_def inv_ids_def distinct_map_filter)
  moreover have "inv_counts [?x] ?s"
    using consistent by (simp add: consistent_with_def inv_counts_def live_handles_def)
  moreover have "inv_handles [?x] ?s"
    using consistent by (simp add: consistent_with_def inv_handles_def live_handles_def in_use_def)
  moreover have "inv_pools [?x] ?s"
    using consistent unfolding consistent_with_def inv_pools_def pr by simp
  moreover have "inv_chunks ?s" "inv_disjoint ?s" "inv_trace ?s"
    using consistent by (simp_all add: consistent_with_def inv_chunks_def inv_disjoint_def inv_trace_def
        in_use_def)
  ultimately show ?thesis
    by (simp add: consistent_with_def)
qed

lemma shared_ptr_copy_consistent:
  assumes consistent: "consistent_with [] s" and live: "pools s p \<noteq> None"
  shows "consistent_with [\<lparr>owner = p, counter = None\<rparr>] (shared_ptr_copy p s)"
proof -
  let ?s = "shared_ptr_copy p s"
  let ?x = "\<lparr>owner = p, counter = None\<rparr>"
  have pr: "pool_refs q [?x] ?s = pool_refs q [] s + (if q = p then 1 else 0)" for q
    by (simp add: pool_refs_def live_handles_def shared_ptr_copy_def)
  have "inv_ids ?s"
    using consistent by (simp add: consistent_with_def inv_ids_def shared_ptr_copy_def)
  moreover have "inv_counts [?x] ?s"
    using consistent by (simp add: consistent_with_def inv_counts_def live_handles_def
        shared_ptr_copy_def)
  moreover have "inv_handles [?x] ?s"
    using consistent by (simp add: consistent_with_def inv_handles_def live_handles_def in_use_def
        shared_ptr_copy_def)
  moreover have "inv_pools [?x] ?s"
    using consistent live unfolding consistent_with_def inv_pools_def pr
    by (auto simp: shared_ptr_copy_def)
  moreover have "inv_chunks ?s" "inv_disjoint ?s" "inv_trace ?s"
    using consistent by (simp_all add: consistent_with_def inv_chunks_def inv_disjoint_def inv_trace_def
        in_use_def shared_ptr_copy_def)
  ultimately show ?thesis
    by (simp add: consistent_with_def)
qed

lemma consistent_withD:
  assumes "consistent_with fl s"
  shows "inv_ids s" "inv_counts fl s" "inv_handles fl s" "inv_pools fl s"
    "inv_chunks s" "inv_disjoint s" "inv_trace s"
  using assms by (simp_all add: consistent_with_def)

lemma in_flight_in_use:
  assumes "inv_handles [\<lparr>owner = p, counter = Some a\<rparr>] s"
  shows "in_use p a s"
  using assms by (simp add: inv_handles_def live_handles_def)

lemma in_useD:
  assumes "in_use p a s"
  shows "\<exists>P. pools s p = Some P \<and> a \<in> set (chunks (pool P)) \<and> a \<notin> set (free_list (pool P))"
  using assms by (auto simp: in_use_def split: option.splits)

lemma inv_chunks_cong:
  assumes "inv_chunks s" "pools s' = pools s" "heap_top s' = heap_top s"
    "\<And>b. (cells s' b = None) = (cells s b = None)"
  shows "inv_chunks s'"
  using assms by (simp add: inv_chunks_def)

lemma increment_consistent:
  assumes consistent: "consistent_with [\<lparr>owner = p, counter = None\<rparr>] s"
    and c: "cells s a = Some c" and use: "in_use p a s"
    and bound: "unat (uses c) + 1 < 2 ^ 64"
  shows "consistent_with [\<lparr>owner = p, counter = Some a\<rparr>]
           (s\<lparr>cells := (cells s)(a \<mapsto> c\<lparr>uses := uses c + 1\<rparr>)\<rparr>)"
proof -
  let ?s = "s\<lparr>cells := (cells s)(a \<mapsto> c\<lparr>uses := uses c + 1\<rparr>)\<rparr>"
  let ?x = "\<lparr>owner = p, counter = None\<rparr>"
  let ?y = "\<lparr>owner = p, counter = Some a\<rparr>"
  note w = consistent_withD [OF consistent]
  have u: "unat (uses c + 1) = unat (uses c) + 1"
    using bound by (simp add: unat_add_lem [THEN iffD1])
  have cr: "cell_refs b (live_handles [?y] ?s) =
            cell_refs b (live_handles [?x] s) + (if b = a then 1 else 0)" for b
    by (simp add: live_handles_def)
  have pr: "pool_refs q [?y] ?s = pool_refs q [?x] s" for q
    by (simp add: pool_refs_def live_handles_def)
  have iu: "in_use q b ?s = in_use q b s" for q b
    by (simp add: in_use_def)
  have "inv_ids ?s"
    using w(1) by (simp add: inv_ids_def)
  moreover have "inv_counts [?y] ?s"
    unfolding inv_counts_def cr
    using w(2) c u by (auto simp: inv_counts_def)
  moreover have "inv_handles [?y] ?s"
    using w(3) use by (auto simp: inv_handles_def live_handles_def iu)
  moreover have "inv_pools [?y] ?s"
    using w(4) unfolding inv_pools_def pr by simp
  moreover have "inv_chunks ?s"
    using w(5) by (rule inv_chunks_cong) (use c in auto)
  moreover have "inv_disjoint ?s"
    using w(6) by (simp add: inv_disjoint_def)
  moreover have "inv_trace ?s"
    using w(7) unfolding inv_trace_def iu by simp
  ultimately show ?thesis
    by (simp add: consistent_with_def)
qed

lemma decrement_consistent:
  assumes consistent: "consistent_with [\<lparr>owner = p, counter = Some a\<rparr>] s"
    and c: "cells s a = Some c" and nz: "uses c - 1 \<noteq> 0"
  shows "consistent_with [\<lparr>owner = p, counter = None\<rparr>]
           (s\<lparr>cells := (cells s)(a \<mapsto> c\<lparr>uses := uses c - 1\<rparr>)\<rparr>)"
proof -
  let ?s = "s\<lparr>cells := (cells s)(a \<mapsto> c\<lparr>uses := uses c - 1\<rparr>)\<rparr>"
  let ?x = "\<lparr>owner = p, counter = None\<rparr>"
  let ?y = "\<lparr>owner = p, counter = Some a\<rparr>"
  note w = consistent_withD [OF consistent]
  from w(2) c have cnt: "unat (uses c) = cell_refs a (live_handles [?y] s)"
    by (simp add: inv_counts_def)
  then have pos: "uses c \<noteq> 0"
    by (auto simp: live_handles_def)
  then have u: "unat (uses c - 1) = unat (uses c) - 1"
    by (rule unat_minus_one)
  from nz [unfolded word_pred_zero_iff] have "unat (uses c) \<noteq> 1" .
  moreover from pos have "unat (uses c) \<noteq> 0"
    by (simp add: unat_eq_zero)
  ultimately have two: "2 \<le> unat (uses c)"
    by arith
  have cr: "cell_refs b (live_handles [?y] s) =
            cell_refs b (live_handles [?x] ?s) + (if b = a then 1 else 0)" for b
    by (simp add: live_handles_def)
  have pr: "pool_refs q [?x] ?s = pool_refs q [?y] s" for q
    by (simp add: pool_refs_def live_handles_def)
  have iu: "in_use q b ?s = in_use q b s" for q b
    by (simp add: in_use_def)
  have "inv_ids ?s"
    using w(1) by (simp add: inv_ids_def)
  moreover have "inv_counts [?x] ?s"
    unfolding inv_counts_def
  proof (intro allI impI)
    fix b d
    assume b: "cells ?s b = Some d"
    show "unat (uses d) = cell_refs b (live_handles [?x] ?s) \<and>
          0 < cell_refs b (live_handles [?x] ?s)"
    proof (cases "b = a")
      case True
      with b have "d = c\<lparr>uses := uses c - 1\<rparr>" by simp
      with True u cnt two cr [of a] show ?thesis by simp
    next
      case False
      with b have "cells s b = Some d" by simp
      with w(2) have "unat (uses d) = cell_refs b (live_handles [?y] s) \<and>
          0 < cell_refs b (live_handles [?y] s)"
        by (simp add: inv_counts_def)
      with False cr [of b] show ?thesis by simp
    qed
  qed
  moreover have "inv_handles [?x] ?s"
    using w(3) by (auto simp: inv_handles_def live_handles_def iu)
  moreover have "inv_pools [?x] ?s"
    using w(4) unfolding inv_pools_def pr by simp
  moreover have "inv_chunks ?s"
    using w(5) by (rule inv_chunks_cong) (use c in auto)
  moreover have "inv_disjoint ?s"
    using w(6) by (simp add: inv_disjoint_def)
  moreover have "inv_trace ?s"
    using w(7) unfolding inv_trace_def iu by simp
  ultimately show ?thesis
    by (simp add: consistent_with_def)
qed

lemma last_ref_no_handles:
  assumes "inv_counts [\<lparr>owner = p, counter = Some a\<rparr>] s" "cells s a = Some c"
    "uses c - 1 = 0"
  shows "cell_refs a (map snd (handles s)) = 0"
proof -
  from assms(1,2) have "unat (uses c) = cell_refs a (live_handles [\<lparr>owner = p, counter = Some a\<rparr>] s)"
    by (simp add: inv_counts_def)
  moreover from assms(3) [unfolded word_pred_zero_iff] have "unat (uses c) = 1" .
  ultimately show ?thesis
    by (simp add: live_handles_def)
qed

lemma release_cell_consistent:
  assumes consistent: "consistent_with [\<lparr>owner = p, counter = Some a\<rparr>] s"
    and c: "cells s a = Some c" and z: "uses c - 1 = 0" and P: "pools s p = Some P"
  shows "consistent_with [\<lparr>owner = p, counter = None\<rparr>]
           (s\<lparr>cells := (cells s)(a := None),
              pools := (pools s)(p \<mapsto> P\<lparr>pool := object_pool_free a (pool P),
                                         mutex := False\<rparr>),
              trace := trace s @ [Lock p, Destroyed a, Freed p a, Unlock p]\<rparr>)"
proof -
  let ?P = "P\<lparr>pool := object_pool_free a (pool P), mutex := False\<rparr>"
  let ?s = "s\<lparr>cells := (cells s)(a := None), pools := (pools s)(p \<mapsto> ?P),
              trace := trace s @ [Lock p, Destroyed a, Freed p a, Unlock p]\<rparr>"
  let ?x = "\<lparr>owner = p, counter = None\<rparr>"
  let ?y = "\<lparr>owner = p, counter = Some a\<rparr>"
  note w = consistent_withD [OF consistent]
  from in_flight_in_use [OF w(3)] P have a: "a \<in> set (chunks (pool P))"
    "a \<notin> set (free_list (pool P))"
    by (simp_all add: in_use_def)
  have none: "cell_refs a (map snd (handles s)) = 0"
    by (rule last_ref_no_handles [OF w(2) c z])
  have iu: "in_use q b ?s = (in_use q b s \<and> \<not> (q = p \<and> b = a))" for q b
    using P a by (auto simp: in_use_def object_pool_free_def set_insort_key)
  have cr: "b \<noteq> a \<Longrightarrow> cell_refs b (live_handles [?x] ?s) = cell_refs b (live_handles [?y] s)" for b
    by (simp add: live_handles_def)
  have pr: "pool_refs q [?x] ?s = pool_refs q [?y] s" for q
    by (simp add: pool_refs_def live_handles_def)
  have "inv_ids ?s"
    using w(1) by (simp add: inv_ids_def)
  moreover have "inv_counts [?x] ?s"
    unfolding inv_counts_def
  proof (intro allI impI)
    fix b d
    assume b: "cells ?s b = Some d"
    then have ne: "b \<noteq> a" by (auto split: if_splits)
    with b have "cells s b = Some d" by simp
    with w(2) have "unat (uses d) = cell_refs b (live_handles [?y] s) \<and>
          0 < cell_refs b (live_handles [?y] s)"
      by (simp add: inv_counts_def)
    with cr [OF ne] show "unat (uses d) = cell_refs b (live_handles [?x] ?s) \<and>
          0 < cell_refs b (live_handles [?x] ?s)"
      by simp
  qed
  moreover have "inv_handles [?x] ?s"
    unfolding inv_handles_def
  proof (intro ballI allI impI)
    fix x b
    assume x: "x \<in> set (live_handles [?x] ?s)" and b: "counter x = Some b"
    from x b have mem: "x \<in> set (map snd (handles s))"
      by (auto simp: live_handles_def)
    with w(3) b have "in_use (owner x) b s"
      by (auto simp: inv_handles_def live_handles_def)
    moreover have "b \<noteq> a"
    proof
      assume "b = a"
      with mem b have "0 < cell_refs a (map snd (handles s))"
        unfolding cell_refs_pos_iff by blast
      with none show False by simp
    qed
    ultimately show "in_use (owner x) b ?s"
      by (simp add: iu)
  qed
  moreover have "inv_pools [?x] ?s"
    using w(4) P unfolding inv_pools_def pr by auto
  moreover have "inv_chunks ?s"
    unfolding inv_chunks_def
  proof (intro allI impI)
    fix q Q
    assume Q: "pools ?s q = Some Q"
    show "set (free_list (pool Q)) \<subseteq> set (chunks (pool Q)) \<and>
        distinct (free_list (pool Q)) \<and>
        (\<forall>b \<in> set (chunks (pool Q)).
           b < heap_top ?s \<and> ((cells ?s b = None) = (b \<in> set (free_list (pool Q)))))"
    proof (cases "q = p")
      case True
      with Q have Q': "Q = ?P" by simp
      from w(5) P have old: "set (free_list (pool P)) \<subseteq> set (chunks (pool P))"
        "distinct (free_list (pool P))"
        "\<forall>b \<in> set (chunks (pool P)).
           b < heap_top s \<and> ((cells s b = None) = (b \<in> set (free_list (pool P))))"
        unfolding inv_chunks_def by blast+
      show ?thesis
        unfolding Q' using old a
        by (auto simp: object_pool_free_def set_insort_key distinct_insort)
    next
      case False
      with Q have Qs: "pools s q = Some Q" by simp
      with w(5) have old: "set (free_list (pool Q)) \<subseteq> set (chunks (pool Q))"
        "distinct (free_list (pool Q))"
        "\<forall>b \<in> set (chunks (pool Q)).
           b < heap_top s \<and> ((cells s b = None) = (b \<in> set (free_list (pool Q))))"
        unfolding inv_chunks_def by blast+
      from w(6) P Qs False have "set (chunks (pool P)) \<inter> set (chunks (pool Q)) = {}"
        unfolding inv_disjoint_def by blast
      with a(1) have "a \<notin> set (chunks (pool Q))" by blast
      with old show ?thesis by auto
    qed
  qed
  moreover have "inv_disjoint ?s"
    unfolding inv_disjoint_def
  proof (intro allI impI)
    fix q r Q R
    assume "pools ?s q = Some Q" "pools ?s r = Some R" "q \<noteq> r"
    then obtain Q0 R0 where "pools s q = Some Q0" "pools s r = Some R0"
      "chunks (pool Q) = chunks (pool Q0)" "chunks (pool R) = chunks (pool R0)"
      using P by (auto simp: object_pool_free_def split: if_splits)
    with w(6) \<open>q \<noteq> r\<close> show "set (chunks (pool Q)) \<inter> set (chunks (pool R)) = {}"
      unfolding inv_disjoint_def by metis
  qed
  moreover have "inv_trace ?s"
    using w(7) in_flight_in_use [OF w(3)]
    unfolding inv_trace_def iu by auto
  ultimately show ?thesis
    by (simp add: consistent_with_def)
qed

lemma dtor_body_consistent:
  assumes consistent: "consistent_with [\<lparr>owner = p, counter = Some a\<rparr>] s"
  shows "\<exists>s'. SmallImpl_dtor_body \<lparr>owner = p, counter = Some a\<rparr> s = Inr s' \<and>
           consistent_with [\<lparr>owner = p, counter = None\<rparr>] s' \<and>
           handles s' = handles s \<and> tls s' = tls s \<and>
           (\<exists>c. cells s a = Some c \<and>
              (if cell_refs a (map snd (handles s)) = 0
               then cells s' = (cells s)(a := None) \<and>
                    trace s' = trace s @ [Lock p, Destroyed a, Freed p a, Unlock p]
               else cells s' = (cells s)(a \<mapsto> c\<lparr>uses := uses c - 1\<rparr>) \<and>
                    trace s' = trace s))"
proof -
  let ?y = "\<lparr>owner = p, counter = Some a\<rparr>"
  note w = consistent_withD [OF consistent]
  from in_useD [OF in_flight_in_use [OF w(3)]] obtain P where
    P: "pools s p = Some P" "a \<in> set (chunks (pool P))" "a \<notin> set (free_list (pool P))"
    by blast
  from w(5) P have "cells s a \<noteq> None"
    unfolding inv_chunks_def by blast
  then obtain c where c: "cells s a = Some c" by auto
  from w(4) P(1) have nm: "\<not> mutex P"
    unfolding inv_pools_def by blast
  from w(2) c have cnt: "unat (uses c) = cell_refs a (map snd (handles s)) + 1"
    by (simp add: inv_counts_def live_handles_def)
  have zero: "(uses c - 1 = 0) = (cell_refs a (map snd (handles s)) = 0)"
    unfolding word_pred_zero_iff cnt by simp
  show ?thesis
  proof (cases "uses c - 1 = 0")
    case True
    let ?s1 = "s\<lparr>cells := (cells s)(a \<mapsto> c\<lparr>uses := uses c - 1\<rparr>)\<rparr>"
    let ?s' = "s\<lparr>cells := (cells s)(a := None),
              pools := (pools s)(p \<mapsto> P\<lparr>pool := object_pool_free a (pool P),
                                         mutex := False\<rparr>),
              trace := trace s @ [Lock p, Destroyed a, Freed p a, Unlock p]\<rparr>"
    have "ParallelPool_destroy p a ?s1 = Inr ?s'"
      using ParallelPool_destroy_ok [of ?s1 p P a "c\<lparr>uses := uses c - 1\<rparr>"] P nm
      by simp
    with c True have "SmallImpl_dtor_body ?y s = Inr ?s'"
      by (simp add: SmallImpl_dtor_body_def atomic_pre_decrement_def)
    moreover have "consistent_with [\<lparr>owner = p, counter = None\<rparr>] ?s'"
      by (rule release_cell_consistent [OF consistent c True P(1)])
    ultimately show ?thesis
      using c True zero by simp
  next
    case False
    let ?s' = "s\<lparr>cells := (cells s)(a \<mapsto> c\<lparr>uses := uses c - 1\<rparr>)\<rparr>"
    from c False have "SmallImpl_dtor_body ?y s = Inr ?s'"
      by (simp add: SmallImpl_dtor_body_def atomic_pre_decrement_def)
    moreover have "consistent_with [\<lparr>owner = p, counter = None\<rparr>] ?s'"
      by (rule decrement_consistent [OF consistent c False])
    ultimately show ?thesis
      using c False zero by simp
  qed
qed

lemma unreferenced_pool_all_free:
  assumes consistent: "consistent_with [\<lparr>owner = p, counter = None\<rparr>] s"
    and none: "pool_refs p [] s = 0" and P: "pools s p = Some P"
  shows "set (chunks (pool P)) \<subseteq> set (free_list (pool P))"
proof
  fix a
  assume a: "a \<in> set (chunks (pool P))"
  note w = consistent_withD [OF consistent]
  show "a \<in> set (free_list (pool P))"
  proof (rule ccontr)
    assume nf: "a \<notin> set (free_list (pool P))"
    with a P have use: "in_use p a s"
      by (simp add: in_use_def)
    from in_use_cell [OF w(5) use] obtain c where "cells s a = Some c" by auto
    from cell_has_handle [OF w(2) this] obtain x where
      x: "x \<in> set (live_handles [\<lparr>owner = p, counter = None\<rparr>] s)" "counter x = Some a"
      by blast
    with w(3) have "in_use (owner x) a s"
      by (auto simp: inv_handles_def)
    from in_use_unique [OF w(6) this use] have "owner x = p" .
    moreover from x have "x \<in> set (map snd (handles s))"
      by (auto simp: live_handles_def)
    ultimately have "0 < owner_refs p (map snd (handles s))"
      unfolding owner_refs_pos_iff by blast
    with none show False
      by (simp add: pool_refs_def live_handles_def)
  qed
qed

lemma delete_pool_consistent:
  assumes consistent: "consistent_with [\<lparr>owner = p, counter = None\<rparr>] s"
    and none: "pool_refs p [] s = 0" and P: "pools s p = Some P"
  shows "consistent_with []
           (s\<lparr>use_count := (use_count s)(p := 0),
              pools := (pools s)(p := None),
              trace := trace s @ [PoolDeleted p]\<rparr>)"
proof -
  let ?s = "s\<lparr>use_count := (use_count s)(p := 0), pools := (pools s)(p := None),
              trace := trace s @ [PoolDeleted p]\<rparr>"
  let ?x = "\<lparr>owner = p, counter = None\<rparr>"
  note w = consistent_withD [OF consistent]
  note free = unreferenced_pool_all_free [OF consistent none P]
  have cr: "cell_refs b (live_handles [] ?s) = cell_refs b (live_handles [?x] s)" for b
    by (simp add: live_handles_def)
  have pr: "pool_refs q [] ?s = pool_refs q [] s" for q
    by (simp add: pool_refs_def live_handles_def)
  have pr': "pool_refs q [?x] s = pool_refs q [] s + (if q = p then 1 else 0)" for q
    by (simp add: pool_refs_def live_handles_def)
  have nouse: "\<not> in_use p b s" for b
    using free P by (auto simp: in_use_def)
  have iu: "in_use q b ?s = in_use q b s" for q b
    using nouse [of b] by (simp add: in_use_def)
  have "inv_ids ?s"
    using w(1) by (simp add: inv_ids_def)
  moreover have "inv_counts [] ?s"
    using w(2) unfolding inv_counts_def cr by simp
  moreover have "inv_handles [] ?s"
    using w(3) unfolding inv_handles_def iu by (simp add: live_handles_def)
  moreover have "inv_pools [] ?s"
    unfolding inv_pools_def pr
  proof (rule conjI; intro allI impI)
    fix q
    assume "pools ?s q = None"
    then have "q = p \<or> pools s q = None" by (auto split: if_splits)
    with none w(4) show "pool_refs q [] s = 0"
      unfolding inv_pools_def pr' by auto
  next
    fix q Q
    assume "pools ?s q = Some Q"
    then have q: "q \<noteq> p" "pools s q = Some Q" by (auto split: if_splits)
    with w(4) have "use_count s q = int (pool_refs q [?x] s) \<and> 0 < pool_refs q [?x] s \<and>
        \<not> mutex Q \<and> q < next_pool s"
      unfolding inv_pools_def by blast
    with q(1) show "use_count ?s q = int (pool_refs q [] s) \<and> 0 < pool_refs q [] s \<and>
        \<not> mutex Q \<and> q < next_pool ?s"
      by (simp add: pr')
  qed
  moreover have "inv_chunks ?s"
    using w(5) unfolding inv_chunks_def by auto
  moreover have "inv_disjoint ?s"
    using w(6) unfolding inv_disjoint_def by auto
  moreover have "inv_trace ?s"
    using w(7) unfolding inv_trace_def iu by simp
  ultimately show ?thesis
    by (simp add: consistent_with_def)
qed

lemma drop_ref_consistent:
  assumes consistent: "consistent_with [\<lparr>owner = p, counter = None\<rparr>] s"
    and some: "pool_refs p [] s \<noteq> 0"
  shows "consistent_with [] (s\<lparr>use_count := (use_count s)(p := use_count s p - 1)\<rparr>)"
proof -
  let ?s = "s\<lparr>use_count := (use_count s)(p := use_count s p - 1)\<rparr>"
  let ?x = "\<lparr>owner = p, counter = None\<rparr>"
  note w = consistent_withD [OF consistent]
  have cr: "cell_refs b (live_handles [] ?s) = cell_refs b (live_handles [?x] s)" for b
    by (simp add: live_handles_def)
  have pr: "pool_refs q [] ?s = pool_refs q [] s" for q
    by (simp add: pool_refs_def live_handles_def)
  have pr': "pool_refs q [?x] s = pool_refs q [] s + (if q = p then 1 else 0)" for q
    by (simp add: pool_refs_def live_handles_def)
  have iu: "in_use q b ?s = in_use q b s" for q b
    by (simp add: in_use_def)
  have "inv_ids ?s"
    using w(1) by (simp add: inv_ids_def)
  moreover have "inv_counts [] ?s"
    using w(2) unfolding inv_counts_def cr by simp
  moreover have "inv_handles [] ?s"
    using w(3) unfolding inv_handles_def iu by (simp add: live_handles_def)
  moreover have "inv_pools [] ?s"
    unfolding inv_pools_def pr
  proof (rule conjI; intro allI impI)
    fix q
    assume "pools ?s q = None"
    then have "pools s q = None" by simp
    with w(4) show "pool_refs q [] s = 0"
      unfolding inv_pools_def pr' by auto
  next
    fix q Q
    assume "pools ?s q = Some Q"
    then have q: "pools s q = Some Q" by simp
    with w(4) have "use_count s q = int (pool_refs q [?x] s) \<and> 0 < pool_refs q [?x] s \<and>
        \<not> mutex Q \<and> q < next_pool s"
      unfolding inv_pools_def by blast
    with some show "use_count ?s q = int (pool_refs q [] s) \<and> 0 < pool_refs q [] s \<and>
        \<not> mutex Q \<and> q < next_pool ?s"
      by (cases "q = p") (simp_all add: pr')
  qed
  moreover have "inv_chunks ?s"
    using w(5) unfolding inv_chunks_def by auto
  moreover have "inv_disjoint ?s"
    using w(6) unfolding inv_disjoint_def by auto
  moreover have "inv_trace ?s"
    using w(7) unfolding inv_trace_def iu by simp
  ultimately show ?thesis
    by (simp add: consistent_with_def)
qed

lemma release_consistent:
  assumes consistent: "consistent_with [\<lparr>owner = p, counter = None\<rparr>] s"
  shows "\<exists>s'. shared_ptr_release p s = Inr s' \<and> consistent_with [] s' \<and>
           handles s' = handles s \<and> tls s' = tls s \<and> cells s' = cells s \<and>
           heap_top s' = heap_top s \<and> next_pool s' = next_pool s \<and>
           (if pool_refs p [] s = 0
            then pools s' = (pools s)(p := None) \<and> trace s' = trace s @ [PoolDeleted p]
            else pools s' = pools s \<and> trace s' = trace s)"
proof -
  let ?x = "\<lparr>owner = p, counter = None\<rparr>"
  note w = consistent_withD [OF consistent]
  have pr': "pool_refs p [?x] s = pool_refs p [] s + 1"
    by (simp add: pool_refs_def live_handles_def)
  with w(4) obtain P where P: "pools s p = Some P"
    unfolding inv_pools_def by (cases "pools s p") auto
  with w(4) pr' have uc: "use_count s p = int (pool_refs p [] s) + 1"
    unfolding inv_pools_def by auto
  show ?thesis
  proof (cases "pool_refs p [] s = 0")
    case True
    let ?s' = "s\<lparr>use_count := (use_count s)(p := 0), pools := (pools s)(p := None),
              trace := trace s @ [PoolDeleted p]\<rparr>"
    note free = unreferenced_pool_all_free [OF consistent True P]
    have f: "filter (\<lambda>a. a \<notin> set (free_list (pool P))) (chunks (pool P)) = []"
      using free by (auto simp: filter_empty_conv)
    have cl: "(\<lambda>a. if a \<in> set (chunks (pool P)) then None else cells s a) = cells s"
    proof
      fix a
      show "(if a \<in> set (chunks (pool P)) then None else cells s a) = cells s a"
      proof (cases "a \<in> set (chunks (pool P))")
        case True
        with free have "a \<in> set (free_list (pool P))" by blast
        with w(5) P True have "cells s a = None"
          unfolding inv_chunks_def by blast
        with True show ?thesis by simp
      next
        case False
        then show ?thesis by simp
      qed
    qed
    have "shared_ptr_release p s =
            Inr (s\<lparr>use_count := (use_count s)(p := 0),
                   cells := (\<lambda>a. if a \<in> set (chunks (pool P)) then None else cells s a),
                   pools := (pools s)(p := None),
                   trace := trace s @
                     map Destroyed
                       (filter (\<lambda>a. a \<notin> set (free_list (pool P))) (chunks (pool P))) @
                     [PoolDeleted p]\<rparr>)"
      using True uc P
      by (simp add: shared_ptr_release_def ParallelPool_dtor_def Let_def cong: if_cong)
    then have "shared_ptr_release p s = Inr ?s'"
      unfolding f cl by simp
    moreover have "consistent_with [] ?s'"
      by (rule delete_pool_consistent [OF consistent True P])
    ultimately show ?thesis
      using True by simp
  next
    case False
    let ?s' = "s\<lparr>use_count := (use_count s)(p := use_count s p - 1)\<rparr>"
    have "shared_ptr_release p s = Inr ?s'"
      using False uc by (simp add: shared_ptr_release_def Let_def)
    moreover have "consistent_with [] ?s'"
      by (rule drop_ref_consistent [OF consistent False])
    ultimately show ?thesis
      using False by simp
  qed
qed

lemma tls_value_live:
  assumes "inv_pools fl s" "(k, q) \<in> set (tls s)"
  shows "\<exists>Q. pools s q = Some Q \<and> q < next_pool s"
proof -
  from assms(2) have "0 < tls_refs q (tls s)"
    unfolding tls_refs_pos_iff by force
  then have "0 < pool_refs q fl s"
    by (simp add: pool_refs_def)
  with assms(1) show ?thesis
    unfolding inv_pools_def by (cases "pools s q") auto
qed

lemma new_pool_consistent:
  assumes consistent: "consistent_with [] s" and fresh: "map_of (tls s) k = None"
  shows "consistent_with []
           (s\<lparr>pools := (pools s)(next_pool s \<mapsto>
                 \<lparr>pool = \<lparr>chunks = [], free_list = []\<rparr>, mutex = False\<rparr>),
              use_count := (use_count s)(next_pool s := 1),
              tls := (k, next_pool s) # tls s,
              next_pool := Suc (next_pool s),
              trace := trace s @ [PoolCreated (next_pool s)]\<rparr>)"
proof -
  let ?n = "next_pool s"
  let ?s = "s\<lparr>pools := (pools s)(?n \<mapsto> \<lparr>pool = \<lparr>chunks = [], free_list = []\<rparr>, mutex = False\<rparr>),
              use_count := (use_count s)(?n := 1), tls := (k, ?n) # tls s,
              next_pool := Suc ?n, trace := trace s @ [PoolCreated ?n]\<rparr>"
  note w = consistent_withD [OF consistent]
  have dead: "pools s ?n = None"
  proof (cases "pools s ?n")
    case (Some Q)
    with w(4) have "?n < ?n" unfolding inv_pools_def by blast
    then show ?thesis by simp
  qed simp
  with w(4) have zero: "pool_refs ?n [] s = 0"
    unfolding inv_pools_def by blast
  have notin: "?n \<notin> snd ` set (tls s)"
  proof
    assume "?n \<in> snd ` set (tls s)"
    then obtain k' where "(k', ?n) \<in> set (tls s)" by force
    from tls_value_live [OF w(4) this] show False by simp
  qed
  have kfresh: "k \<notin> fst ` set (tls s)"
    using fresh by (simp add: map_of_eq_None_iff)
  have pr: "pool_refs q [] ?s = pool_refs q [] s + (if q = ?n then 1 else 0)" for q
    by (simp add: pool_refs_def live_handles_def)
  have iu: "in_use q b ?s = in_use q b s" for q b
    using dead by (simp add: in_use_def)
  have "inv_ids ?s"
    using w(1) notin kfresh by (simp add: inv_ids_def)
  moreover have "inv_counts [] ?s"
    using w(2) by (simp add: inv_counts_def live_handles_def)
  moreover have "inv_handles [] ?s"
    using w(3) unfolding inv_handles_def iu by (simp add: live_handles_def)
  moreover have "inv_pools [] ?s"
    unfolding inv_pools_def pr
  proof (rule conjI; intro allI impI)
    fix q
    assume "pools ?s q = None"
    then have "q \<noteq> ?n" "pools s q = None" by (auto split: if_splits)
    with w(4) show "pool_refs q [] s + (if q = ?n then 1 else 0) = 0"
      unfolding inv_pools_def by simp
  next
    fix q Q
    assume Q: "pools ?s q = Some Q"
    show "use_count ?s q = int (pool_refs q [] s + (if q = ?n then 1 else 0)) \<and>
          0 < pool_refs q [] s + (if q = ?n then 1 else 0) \<and> \<not> mutex Q \<and> q < next_pool ?s"
    proof (cases "q = ?n")
      case True
      with Q zero show ?thesis by auto
    next
      case False
      with Q have "pools s q = Some Q" by simp
      with w(4) have "use_count s q = int (pool_refs q [] s) \<and> 0 < pool_refs q [] s \<and>
        \<not> mutex Q \<and> q < next_pool s"
        unfolding inv_pools_def by blast
      with False show ?thesis by simp
    qed
  qed
  moreover have "inv_chunks ?s"
    using w(5) unfolding inv_chunks_def by auto
  moreover have "inv_disjoint ?s"
    using w(6) unfolding inv_disjoint_def by auto
  moreover have "inv_trace ?s"
    using w(7) unfolding inv_trace_def iu by simp
  ultimately show ?thesis
    by (simp add: consistent_with_def)
qed

lemma getPool_consistent:
  assumes consistent: "consistent_with [] s" and g: "getPool t T new_ok s = Inr (p, s')"
  shows "consistent_with [\<lparr>owner = p, counter = None\<rparr>] s' \<and>
         handles s' = handles s \<and> cells s' = cells s \<and> heap_top s' = heap_top s \<and>
         map_of (tls s') (t, T) = Some p \<and>
         (case map_of (tls s) (t, T) of
            Some q \<Rightarrow> q = p \<and> tls s' = tls s \<and> pools s' = pools s \<and> trace s' = trace s
          | None \<Rightarrow> p = next_pool s \<and> pools s p = None \<and> tls s' = ((t, T), p) # tls s \<and>
                    trace s' = trace s @ [PoolCreated p])"
proof (cases "map_of (tls s) (t, T)")
  case (Some q)
  with g have eq: "p = q" "s' = shared_ptr_copy q s"
    by (auto simp: getPool_def)
  note w = consistent_withD [OF consistent]
  from Some have "((t, T), q) \<in> set (tls s)" by (rule map_of_SomeD)
  from tls_value_live [OF w(4) this] have "pools s q \<noteq> None" by auto
  from shared_ptr_copy_consistent [OF consistent this] Some show ?thesis
    by (simp add: eq shared_ptr_copy_def)
next
  case None
  let ?n = "next_pool s"
  let ?s = "s\<lparr>pools := (pools s)(?n \<mapsto> \<lparr>pool = \<lparr>chunks = [], free_list = []\<rparr>, mutex = False\<rparr>),
              use_count := (use_count s)(?n := 1), tls := ((t, T), ?n) # tls s,
              next_pool := Suc ?n, trace := trace s @ [PoolCreated ?n]\<rparr>"
  from g None have ok: "new_ok" and eq: "p = ?n" "s' = shared_ptr_copy ?n ?s"
    by (auto simp: getPool_def Let_def split: if_splits)
  have wf1: "consistent_with [] ?s"
    by (rule new_pool_consistent [OF consistent None])
  have "pools ?s ?n \<noteq> None" by simp
  from shared_ptr_copy_consistent [OF wf1 this] have "consistent_with [\<lparr>owner = p, counter = None\<rparr>] s'"
    by (simp add: eq)
  moreover have "pools s ?n = None"
  proof (cases "pools s ?n")
    case (Some Q)
    with consistent_withD(4) [OF consistent] have "?n < ?n" unfolding inv_pools_def by blast
    then show ?thesis by simp
  qed simp
  ultimately show ?thesis
    using None by (simp add: eq shared_ptr_copy_def)
qed

lemma construct_consistent:
  assumes consistent: "consistent_with [\<lparr>owner = p, counter = None\<rparr>] s" and P: "pools s p = Some P"
    and fresh: "cells s a = None"
    and brk: "heap_top s \<le> brk"
    and N: "\<forall>b \<in> N. heap_top s \<le> b \<and> b < brk"
    and ch: "set (chunks opl) = set (chunks (pool P)) \<union> N"
    and a: "a \<in> set (chunks opl)"
    and fr: "\<forall>b. (b \<in> set (free_list opl)) =
               ((b \<in> set (free_list (pool P)) \<or> b \<in> N) \<and> b \<noteq> a)"
    and dist: "distinct (free_list opl)"
  shows "consistent_with [\<lparr>owner = p, counter = Some a\<rparr>]
           (s\<lparr>cells := (cells s)(a \<mapsto> AtomicCounter_ctor v),
              pools := (pools s)(p \<mapsto> P\<lparr>pool := opl, mutex := False\<rparr>),
              heap_top := brk,
              trace := trace s @ [Lock p, Constructed p a, Unlock p]\<rparr>)"
proof -
  let ?P = "P\<lparr>pool := opl, mutex := False\<rparr>"
  let ?s = "s\<lparr>cells := (cells s)(a \<mapsto> AtomicCounter_ctor v), pools := (pools s)(p \<mapsto> ?P),
              heap_top := brk, trace := trace s @ [Lock p, Constructed p a, Unlock p]\<rparr>"
  let ?x = "\<lparr>owner = p, counter = None\<rparr>"
  let ?y = "\<lparr>owner = p, counter = Some a\<rparr>"
  note w = consistent_withD [OF consistent]
  from w(5) P have old: "set (free_list (pool P)) \<subseteq> set (chunks (pool P))"
    "\<forall>b \<in> set (chunks (pool P)).
       b < heap_top s \<and> ((cells s b = None) = (b \<in> set (free_list (pool P))))"
    unfolding inv_chunks_def by blast+
  have none: "cell_refs a (live_handles [?x] s) = 0"
    by (rule no_cell_no_refs [OF w(3) w(5) fresh])
  have cr: "cell_refs b (live_handles [?y] ?s) =
            cell_refs b (live_handles [?x] s) + (if b = a then 1 else 0)" for b
    by (simp add: live_handles_def)
  have pr: "pool_refs q [?y] ?s = pool_refs q [?x] s" for q
    by (simp add: pool_refs_def live_handles_def)
  have oldN: "b \<in> set (chunks (pool P)) \<Longrightarrow> b \<notin> N" for b
    using old(2) N by fastforce
  have iu: "in_use q b ?s = (in_use q b s \<or> (q = p \<and> b = a))" for q b
  proof (cases "q = p")
    case True
    show ?thesis
    proof (cases "b = a")
      case True
      with \<open>q = p\<close> a fr show ?thesis by (simp add: in_use_def)
    next
      case False
      with \<open>q = p\<close> P ch fr oldN [of b] old(1) show ?thesis
        by (auto simp: in_use_def)
    qed
  next
    case False
    then show ?thesis by (simp add: in_use_def)
  qed
  have notuse: "\<not> in_use q a s" for q
    using in_use_cell [OF w(5), of q a] fresh by auto
  have "inv_ids ?s"
    using w(1) by (simp add: inv_ids_def)
  moreover have "inv_counts [?y] ?s"
    unfolding inv_counts_def
  proof (intro allI impI)
    fix b d
    assume b: "cells ?s b = Some d"
    show "unat (uses d) = cell_refs b (live_handles [?y] ?s) \<and>
          0 < cell_refs b (live_handles [?y] ?s)"
    proof (cases "b = a")
      case True
      with b have "d = AtomicCounter_ctor v" by simp
      with True none show ?thesis
        unfolding cr by (simp add: AtomicCounter_ctor_def)
    next
      case False
      with b have "cells s b = Some d" by simp
      with w(2) have "unat (uses d) = cell_refs b (live_handles [?x] s) \<and>
          0 < cell_refs b (live_handles [?x] s)"
        by (simp add: inv_counts_def)
      with False show ?thesis unfolding cr by simp
    qed
  qed
  moreover have "inv_handles [?y] ?s"
    using w(3) unfolding inv_handles_def iu by (auto simp: live_handles_def)
  moreover have "inv_pools [?y] ?s"
    using w(4) P unfolding inv_pools_def pr by auto
  moreover have "inv_chunks ?s"
    unfolding inv_chunks_def
  proof (intro allI impI)
    fix q Q
    assume Q: "pools ?s q = Some Q"
    show "set (free_list (pool Q)) \<subseteq> set (chunks (pool Q)) \<and>
        distinct (free_list (pool Q)) \<and>
        (\<forall>b \<in> set (chunks (pool Q)).
           b < heap_top ?s \<and> ((cells ?s b = None) = (b \<in> set (free_list (pool Q)))))"
    proof (cases "q = p")
      case True
      with Q have Q': "Q = ?P" by simp
      have 1: "set (free_list opl) \<subseteq> set (chunks opl)"
        using fr ch old(1) by auto
      have 2: "b < brk \<and> ((cells ?s b = None) = (b \<in> set (free_list opl)))"
        if "b \<in> set (chunks opl)" for b
      proof (cases "b \<in> N")
        case True
        with N have range: "heap_top s \<le> b" "b < brk" by auto
        from fresh_cell_none [OF w(2) w(3) w(5) range(1)] have "cells s b = None" .
        with True range fr show ?thesis by auto
      next
        case False
        with that ch have "b \<in> set (chunks (pool P))" by auto
        with old(2) have "b < heap_top s"
          "(cells s b = None) = (b \<in> set (free_list (pool P)))" by auto
        with False brk fr fresh show ?thesis by auto
      qed
      show ?thesis
        unfolding Q' using 1 2 dist by simp
    next
      case False
      with Q have Qs: "pools s q = Some Q" by simp
      with w(5) have oldQ: "set (free_list (pool Q)) \<subseteq> set (chunks (pool Q))"
        "distinct (free_list (pool Q))"
        "\<forall>b \<in> set (chunks (pool Q)).
           b < heap_top s \<and> ((cells s b = None) = (b \<in> set (free_list (pool Q))))"
        unfolding inv_chunks_def by blast+
      have "a \<notin> set (chunks (pool Q)) \<or> a \<in> set (free_list (pool Q))"
        using notuse [of q] Qs by (simp add: in_use_def)
      moreover have "a \<in> set (chunks (pool Q)) \<Longrightarrow> a \<notin> set (free_list (pool Q))"
      proof -
        assume aQ: "a \<in> set (chunks (pool Q))"
        with oldQ(3) have lt: "a < heap_top s" by blast
        with N have "a \<notin> N" by fastforce
        with a ch have "a \<in> set (chunks (pool P))" by auto
        moreover from w(6) P Qs False
        have "set (chunks (pool P)) \<inter> set (chunks (pool Q)) = {}"
          unfolding inv_disjoint_def by blast
        ultimately show ?thesis using aQ by blast
      qed
      ultimately have na: "a \<notin> set (chunks (pool Q))" by blast
      have "b < brk \<and> ((cells ?s b = None) = (b \<in> set (free_list (pool Q))))"
        if "b \<in> set (chunks (pool Q))" for b
      proof -
        from that na have "b \<noteq> a" by blast
        moreover from that oldQ(3) have "b < heap_top s"
          "(cells s b = None) = (b \<in> set (free_list (pool Q)))" by auto
        ultimately show ?thesis using brk by simp
      qed
      with oldQ(1,2) show ?thesis by simp
    qed
  qed
  moreover have "inv_disjoint ?s"
    unfolding inv_disjoint_def
  proof (intro allI impI)
    fix q r Q R
    assume Q: "pools ?s q = Some Q" and R: "pools ?s r = Some R" and ne: "q \<noteq> r"
    have *: "set (chunks opl) \<inter> set (chunks (pool R0)) = {}"
      if "pools s r0 = Some R0" "r0 \<noteq> p" for r0 R0
    proof -
      from w(6) P that have "set (chunks (pool P)) \<inter> set (chunks (pool R0)) = {}"
        unfolding inv_disjoint_def by blast
      moreover from w(5) that(1) have "\<forall>b \<in> set (chunks (pool R0)). b < heap_top s"
        unfolding inv_chunks_def by blast
      with N have "N \<inter> set (chunks (pool R0)) = {}" by fastforce
      ultimately show ?thesis using ch by blast
    qed
    show "set (chunks (pool Q)) \<inter> set (chunks (pool R)) = {}"
    proof (cases "q = p")
      case True
      with ne Q R have "Q = ?P" "pools s r = Some R" "r \<noteq> p" by auto
      with * show ?thesis by simp
    next
      case False
      show ?thesis
      proof (cases "r = p")
        case True
        with ne Q R have "R = ?P" "pools s q = Some Q" "q \<noteq> p" by auto
        with * [of q Q] show ?thesis by auto
      next
        case False
        with \<open>q \<noteq> p\<close> Q R have "pools s q = Some Q" "pools s r = Some R" by auto
        with w(6) ne show ?thesis unfolding inv_disjoint_def by blast
      qed
    qed
  qed
  moreover have "inv_trace ?s"
    using w(7) notuse unfolding inv_trace_def iu by auto
  ultimately show ?thesis
    by (simp add: consistent_with_def)
qed

lemma trace_noise_consistent:
  assumes consistent: "consistent_with fl s"
    and noise: "\<forall>q b. Constructed q b \<notin> set xs \<and> Freed q b \<notin> set xs"
  shows "consistent_with fl (s\<lparr>trace := trace s @ xs\<rparr>)"
proof -
  let ?s = "s\<lparr>trace := trace s @ xs\<rparr>"
  note w = consistent_withD [OF consistent]
  have iu: "in_use q b ?s = in_use q b s" for q b
    by (simp add: in_use_def)
  have cnt: "count_list xs (Constructed q b) = 0" "count_list xs (Freed q b) = 0" for q b
    using noise by (simp_all add: count_list_0_iff)
  have "inv_ids ?s"
    using w(1) by (simp add: inv_ids_def)
  moreover have "inv_counts fl ?s"
    using w(2) by (simp add: inv_counts_def live_handles_def)
  moreover have "inv_handles fl ?s"
    using w(3) unfolding inv_handles_def iu by (simp add: live_handles_def)
  moreover have "inv_pools fl ?s"
    using w(4) by (simp add: inv_pools_def pool_refs_def live_handles_def)
  moreover have "inv_chunks ?s"
    using w(5) by (simp add: inv_chunks_def)
  moreover have "inv_disjoint ?s"
    using w(6) by (simp add: inv_disjoint_def)
  moreover have "inv_trace ?s"
    using w(7) unfolding inv_trace_def iu by (simp add: cnt)
  ultimately show ?thesis
    by (simp add: consistent_with_def)
qed

lemma in_flight_pool:
  assumes "inv_pools [\<lparr>owner = p, counter = c\<rparr>] s"
  shows "\<exists>P. pools s p = Some P \<and> \<not> mutex P"
  by (rule live_pool_of_ref [OF assms, of "\<lparr>owner = p, counter = c\<rparr>", simplified])
    (simp add: live_handles_def)

lemma ParallelPool_construct_consistent:
  assumes consistent: "consistent_with [\<lparr>owner = p, counter = None\<rparr>] s"
  shows "\<exists>c s'. ParallelPool_construct p v reply s = Inr (c, s') \<and>
           consistent_with [\<lparr>owner = p, counter = c\<rparr>] s' \<and>
           handles s' = handles s \<and> tls s' = tls s \<and>
           (case c of
              None \<Rightarrow> reply = OutOfMemory \<and> cells s' = cells s \<and>
                        trace s' = trace s @ [Lock p, Unlock p]
            | Some a \<Rightarrow> cells s a = None \<and>
                        cells s' = (cells s)(a \<mapsto> AtomicCounter_ctor v) \<and>
                        trace s' = trace s @ [Lock p, Constructed p a, Unlock p])"
proof -
  note w = consistent_withD [OF consistent]
  from in_flight_pool [OF w(4)] obtain P where P: "pools s p = Some P" "\<not> mutex P"
    by blast
  from w(5) P(1) have old: "set (free_list (pool P)) \<subseteq> set (chunks (pool P))"
    "distinct (free_list (pool P))"
    "\<forall>b \<in> set (chunks (pool P)).
       b < heap_top s \<and> ((cells s b = None) = (b \<in> set (free_list (pool P))))"
    unfolding inv_chunks_def by blast+
  show ?thesis
  proof (cases "free_list (pool P)")
    case (Cons a fl)
    let ?opl = "(pool P)\<lparr>free_list := fl\<rparr>"
    let ?s' = "s\<lparr>cells := (cells s)(a \<mapsto> AtomicCounter_ctor v),
                 pools := (pools s)(p \<mapsto> P\<lparr>pool := ?opl, mutex := False\<rparr>),
                 heap_top := heap_top s,
                 trace := trace s @ [Lock p, Constructed p a, Unlock p]\<rparr>"
    have run: "ParallelPool_construct p v reply s = Inr (Some a, ?s')"
      using P Cons
      by (simp add: ParallelPool_construct_def mutex_lock_def pool_construct_def
            object_pool_malloc_def mutex_unlock_def)
    from Cons old have a: "a \<in> set (chunks (pool P))" "a \<notin> set fl" "cells s a = None"
      by auto
    have "consistent_with [\<lparr>owner = p, counter = Some a\<rparr>] ?s'"
    proof (rule construct_consistent [OF consistent P(1) a(3), where N = "{}"])
      show "\<forall>b. (b \<in> set (free_list ?opl)) =
               ((b \<in> set (free_list (pool P)) \<or> b \<in> {}) \<and> b \<noteq> a)"
        using Cons a(2) by auto
      show "distinct (free_list ?opl)"
        using Cons old(2) by simp
    qed (use a in simp_all)
    with run a(3) show ?thesis by simp
  next
    case Nil
    show ?thesis
    proof (cases reply)
      case OutOfMemory
      let ?s' = "s\<lparr>trace := trace s @ [Lock p, Unlock p]\<rparr>"
      have same: "P\<lparr>mutex := False\<rparr> = P"
        using P(2) by simp
      have "ParallelPool_construct p v reply s =
              Inr (None, s\<lparr>pools := (pools s)(p \<mapsto> P\<lparr>mutex := False\<rparr>),
                            trace := trace s @ [Lock p, Unlock p]\<rparr>)"
        using P Nil OutOfMemory
        by (simp add: ParallelPool_construct_def mutex_lock_def pool_construct_def
              object_pool_malloc_def mutex_unlock_def)
      also have "(pools s)(p \<mapsto> P\<lparr>mutex := False\<rparr>) = pools s"
        unfolding same using P(1) by (simp add: fun_upd_idem)
      finally have run: "ParallelPool_construct p v reply s = Inr (None, ?s')"
        by simp
      have "consistent_with [\<lparr>owner = p, counter = None\<rparr>] ?s'"
        by (rule trace_noise_consistent [OF consistent]) simp
      with run OutOfMemory show ?thesis by simp
    next
      case (Block n)
      let ?t = "heap_top s"
      let ?opl = "(pool P)\<lparr>chunks := chunks (pool P) @ [?t ..< Suc ?t + n],
                           free_list := [Suc ?t ..< Suc ?t + n]\<rparr>"
      let ?s' = "s\<lparr>cells := (cells s)(?t \<mapsto> AtomicCounter_ctor v),
                 pools := (pools s)(p \<mapsto> P\<lparr>pool := ?opl, mutex := False\<rparr>),
                 heap_top := Suc ?t + n,
                 trace := trace s @ [Lock p, Constructed p ?t, Unlock p]\<rparr>"
      have run: "ParallelPool_construct p v reply s = Inr (Some ?t, ?s')"
        using P Nil Block
        by (simp add: ParallelPool_construct_def mutex_lock_def pool_construct_def
              object_pool_malloc_def mutex_unlock_def)
      have fresh: "cells s ?t = None"
        by (rule fresh_cell_none [OF w(2) w(3) w(5)]) simp
      have "consistent_with [\<lparr>owner = p, counter = Some ?t\<rparr>] ?s'"
      proof (rule construct_consistent [OF consistent P(1) fresh, where N = "{?t ..< Suc ?t + n}"])
        show "\<forall>b. (b \<in> set (free_list ?opl)) =
               ((b \<in> set (free_list (pool P)) \<or> b \<in> {?t ..< Suc ?t + n}) \<and> b \<noteq> ?t)"
          using Nil by auto
      qed auto
      with run fresh show ?thesis by simp
    qed
  qed
qed

lemma handle_eta: "\<lparr>owner = owner x, counter = counter x\<rparr> = (x :: handle)"
  by simp

lemma SmallImpl_ctor_consistent:
  assumes consistent: "consistent s" and run: "SmallImpl_ctor t T h v new_ok reply s = Inr s'"
  shows "consistent s' \<and>
         (\<exists>p c. handles s' = (h, \<lparr>owner = p, counter = c\<rparr>) # handles s \<and>
            (\<exists>s1. getPool t T new_ok s = Inr (p, s1)) \<and>
            map_of (tls s') (t, T) = Some p \<and>
            (case map_of (tls s) (t, T) of
               Some q \<Rightarrow> q = p \<and> tls s' = tls s
             | None \<Rightarrow> p = next_pool s \<and> pools s p = None \<and> tls s' = ((t, T), p) # tls s) \<and>
            (case c of
               None \<Rightarrow> reply = OutOfMemory \<and> cells s' = cells s
             | Some a \<Rightarrow> cells s a = None \<and> cells s' = (cells s)(a \<mapsto> AtomicCounter_ctor v)))"
proof -
  from run have fresh: "h \<notin> fst ` set (handles s)"
    by (auto simp: SmallImpl_ctor_def split: if_splits)
  with run obtain p s1 where g: "getPool t T new_ok s = Inr (p, s1)"
    and rest: "and_then (ParallelPool_construct p v reply s1) (\<lambda>(c, s2).
           Inr (s2\<lparr>handles := (h, \<lparr>owner = p, counter = c\<rparr>) # handles s2\<rparr>)) = Inr s'"
    by (auto simp: SmallImpl_ctor_def and_then_eq_Inr)
  from getPool_consistent [OF consistent [unfolded consistent_def] g] have
    wf1: "consistent_with [\<lparr>owner = p, counter = None\<rparr>] s1" and
    same1: "handles s1 = handles s" "cells s1 = cells s" "map_of (tls s1) (t, T) = Some p" and
    tls1: "case map_of (tls s) (t, T) of
            Some q \<Rightarrow> q = p \<and> tls s1 = tls s \<and> pools s1 = pools s \<and> trace s1 = trace s
          | None \<Rightarrow> p = next_pool s \<and> pools s p = None \<and> tls s1 = ((t, T), p) # tls s \<and>
                    trace s1 = trace s @ [PoolCreated p]"
    by simp_all
  from ParallelPool_construct_consistent [OF wf1, of v reply] obtain c s2 where
    c: "ParallelPool_construct p v reply s1 = Inr (c, s2)" and
    wf2: "consistent_with [\<lparr>owner = p, counter = c\<rparr>] s2" and
    same2: "handles s2 = handles s1" "tls s2 = tls s1" and
    eff: "case c of
              None \<Rightarrow> reply = OutOfMemory \<and> cells s2 = cells s1 \<and>
                        trace s2 = trace s1 @ [Lock p, Unlock p]
            | Some a \<Rightarrow> cells s1 a = None \<and>
                        cells s2 = (cells s1)(a \<mapsto> AtomicCounter_ctor v) \<and>
                        trace s2 = trace s1 @ [Lock p, Constructed p a, Unlock p]"
    by blast
  from rest c have s': "s' = s2\<lparr>handles := (h, \<lparr>owner = p, counter = c\<rparr>) # handles s2\<rparr>"
    by simp
  from fresh same1(1) same2(1) have "h \<notin> fst ` set (handles s2)" by simp
  from add_handle_consistent [OF wf2 this] have "consistent s'"
    by (simp add: consistent_def s')
  moreover have "handles s' = (h, \<lparr>owner = p, counter = c\<rparr>) # handles s"
    by (simp add: s' same1 same2)
  moreover have "map_of (tls s') (t, T) = Some p"
    by (simp add: s' same1 same2)
  moreover have "case map_of (tls s) (t, T) of
               Some q \<Rightarrow> q = p \<and> tls s' = tls s
             | None \<Rightarrow> p = next_pool s \<and> pools s p = None \<and> tls s' = ((t, T), p) # tls s"
    using tls1 by (auto simp: s' same2 split: option.splits)
  moreover have "case c of
               None \<Rightarrow> reply = OutOfMemory \<and> cells s' = cells s
             | Some a \<Rightarrow> cells s a = None \<and> cells s' = (cells s)(a \<mapsto> AtomicCounter_ctor v)"
    using eff by (auto simp: s' same1 split: option.splits)
  ultimately show ?thesis using g by blast
qed

lemma SmallImpl_copy_consistent:
  assumes consistent: "consistent s" and run: "SmallImpl_copy src dst s = Inr s'"
    and bound: "length (handles s) + 1 < 2 ^ 64"
  shows "consistent s' \<and> (\<exists>item. map_of (handles s) src = Some item \<and>
                      handles s' = (dst, item) # handles s) \<and> tls s' = tls s"
proof -
  note w = consistent_withD [OF consistent [unfolded consistent_def]]
  from run obtain item where item: "map_of (handles s) src = Some item"
    by (auto simp: SmallImpl_copy_def split: option.splits)
  from run item have fresh: "dst \<notin> fst ` set (handles s)"
    by (auto simp: SmallImpl_copy_def split: if_splits)
  from run item fresh obtain a where a: "counter item = Some a"
    by (auto simp: SmallImpl_copy_def Let_def split: option.splits)
  from run item fresh a obtain c where c: "cells s a = Some c"
    by (auto simp: SmallImpl_copy_def Let_def shared_ptr_copy_def split: option.splits)
  let ?p = "owner item"
  let ?s1 = "shared_ptr_copy ?p s"
  let ?s2 = "?s1\<lparr>cells := (cells ?s1)(a \<mapsto> c\<lparr>uses := uses c + 1\<rparr>)\<rparr>"
  have s': "s' = ?s2\<lparr>handles := (dst, \<lparr>owner = ?p, counter = Some a\<rparr>) # handles ?s2\<rparr>"
    using run item fresh a c
    by (simp add: SmallImpl_copy_def Let_def shared_ptr_copy_def atomic_pre_increment_def)
  from item have mem: "item \<in> set (live_handles [] s)"
    by (force simp: live_handles_def dest: map_of_SomeD)
  from live_pool_of_ref [OF w(4) mem] have "pools s ?p \<noteq> None" by auto
  from shared_ptr_copy_consistent [OF consistent [unfolded consistent_def] this]
  have wf1: "consistent_with [\<lparr>owner = ?p, counter = None\<rparr>] ?s1" .
  have c1: "cells ?s1 a = Some c"
    using c by (simp add: shared_ptr_copy_def)
  from w(3) mem a have "in_use ?p a s"
    unfolding inv_handles_def by blast
  then have use1: "in_use ?p a ?s1"
    by (simp add: in_use_def shared_ptr_copy_def)
  from w(2) c have "unat (uses c) = cell_refs a (live_handles [] s)"
    unfolding inv_counts_def by blast
  also have "\<dots> \<le> length (handles s)"
    using cell_refs_le_length [of a "live_handles [] s"] by (simp add: live_handles_def)
  finally have b: "unat (uses c) + 1 < 2 ^ 64"
    using bound by simp
  from increment_consistent [OF wf1 c1 use1 b]
  have wf2: "consistent_with [\<lparr>owner = ?p, counter = Some a\<rparr>] ?s2" .
  have "dst \<notin> fst ` set (handles ?s2)"
    using fresh by (simp add: shared_ptr_copy_def)
  from add_handle_consistent [OF wf2 this] have "consistent s'"
    by (simp add: consistent_def s')
  moreover have "\<lparr>owner = ?p, counter = Some a\<rparr> = item"
    using a by (simp flip: a)
  ultimately show ?thesis
    using item by (simp add: s' shared_ptr_copy_def)
qed

lemma SmallImpl_dtor_consistent:
  assumes consistent: "consistent s" and x: "map_of (handles s) h = Some x" and a: "counter x = Some a"
  shows "\<exists>s' c. SmallImpl_dtor h s = Inr s' \<and> consistent s' \<and>
           handles s' = filter (\<lambda>e. fst e \<noteq> h) (handles s) \<and> tls s' = tls s \<and>
           cells s a = Some c \<and>
           (if cell_refs a (map snd (handles s)) = 1
            then cells s' = (cells s)(a := None) \<and>
                 (\<exists>tail. trace s' = trace s @ [Lock (owner x), Destroyed a,
                                             Freed (owner x) a, Unlock (owner x)] @ tail \<and>
                    (tail = [] \<or> tail = [PoolDeleted (owner x)]))
            else cells s' = (cells s)(a \<mapsto> c\<lparr>uses := uses c - 1\<rparr>) \<and>
                 trace s' = trace s)"
proof -
  let ?p = "owner x"
  let ?s0 = "s\<lparr>handles := filter (\<lambda>e. fst e \<noteq> h) (handles s)\<rparr>"
  note w = consistent_withD [OF consistent [unfolded consistent_def]]
  have xeq: "x = \<lparr>owner = ?p, counter = Some a\<rparr>"
    using a by (simp flip: a)
  from remove_handle_consistent [OF consistent [unfolded consistent_def] x]
  have wf0: "consistent_with [\<lparr>owner = ?p, counter = Some a\<rparr>] ?s0"
    using xeq by simp
  from x have mem: "(h, x) \<in> set (handles s)" by (rule map_of_SomeD)
  from w(1) have d: "distinct (map fst (handles s))" by (simp add: inv_ids_def)
  from cell_refs_remove [OF d mem, of a] a
  have cr: "cell_refs a (map snd (handles ?s0)) + 1 = cell_refs a (map snd (handles s))"
    by simp
  from dtor_body_consistent [OF wf0] obtain s2 c where
    body: "SmallImpl_dtor_body \<lparr>owner = ?p, counter = Some a\<rparr> ?s0 = Inr s2" and
    wf2: "consistent_with [\<lparr>owner = ?p, counter = None\<rparr>] s2" and
    same2: "handles s2 = handles ?s0" "tls s2 = tls ?s0" and
    c: "cells ?s0 a = Some c" and
    eff: "if cell_refs a (map snd (handles ?s0)) = 0
          then cells s2 = (cells ?s0)(a := None) \<and>
               trace s2 = trace ?s0 @ [Lock ?p, Destroyed a, Freed ?p a, Unlock ?p]
          else cells s2 = (cells ?s0)(a \<mapsto> c\<lparr>uses := uses c - 1\<rparr>) \<and>
               trace s2 = trace ?s0"
    by blast
  from release_consistent [OF wf2] obtain s' where
    rel: "shared_ptr_release ?p s2 = Inr s'" and consistent': "consistent_with [] s'" and
    same': "handles s' = handles s2" "tls s' = tls s2" "cells s' = cells s2" and
    tr: "if pool_refs ?p [] s2 = 0
         then pools s' = (pools s2)(?p := None) \<and> trace s' = trace s2 @ [PoolDeleted ?p]
         else pools s' = pools s2 \<and> trace s' = trace s2"
    by blast
  have run: "SmallImpl_dtor h s = Inr s'"
    using x body rel xeq by (simp add: SmallImpl_dtor_def)
  have last: "(cell_refs a (map snd (handles s)) = 1) = (cell_refs a (map snd (handles ?s0)) = 0)"
    using cr by auto
  show ?thesis
  proof (cases "cell_refs a (map snd (handles s)) = 1")
    case True
    with last eff have e: "cells s2 = (cells s)(a := None)"
      "trace s2 = trace s @ [Lock ?p, Destroyed a, Freed ?p a, Unlock ?p]"
      by simp_all
    have "\<exists>tail. trace s' = trace s @ [Lock ?p, Destroyed a, Freed ?p a, Unlock ?p] @ tail \<and>
                    (tail = [] \<or> tail = [PoolDeleted ?p])"
      using tr e(2) by (cases "pool_refs ?p [] s2 = 0") simp_all
    with run consistent' same' same2 c e(1) True show ?thesis
      by (auto simp: consistent_def)
  next
    case False
    with last eff have e: "cells s2 = (cells s)(a \<mapsto> c\<lparr>uses := uses c - 1\<rparr>)"
      "trace s2 = trace s"
      by simp_all
    from False cr have "0 < cell_refs a (map snd (handles s2))"
      using same2(1) by simp
    then obtain y where y: "y \<in> set (map snd (handles s2))" "counter y = Some a"
      unfolding cell_refs_pos_iff by blast
    note w2 = consistent_withD [OF wf2]
    from w2(3) y have "in_use (owner y) a s2"
      unfolding inv_handles_def by (auto simp: live_handles_def)
    moreover from w(3) mem a have "in_use ?p a s"
      unfolding inv_handles_def by (force simp: live_handles_def)
    then have "in_use ?p a s2"
    proof -
      from SmallImpl_dtor_body_Inr [OF body] c False last
      have "s2 = ?s0\<lparr>cells := (cells ?s0)(a \<mapsto> c\<lparr>uses := uses c - 1\<rparr>)\<rparr>"
        using e
        by (auto split: if_splits)
      with \<open>in_use ?p a s\<close> show ?thesis by (simp add: in_use_def)
    qed
    ultimately have "owner y = ?p"
      by (rule in_use_unique [OF w2(6)])
    with y(1) have "0 < owner_refs ?p (map snd (handles s2))"
      unfolding owner_refs_pos_iff by blast
    then have "pool_refs ?p [] s2 \<noteq> 0"
      by (simp add: pool_refs_def live_handles_def)
    with tr e(2) have "trace s' = trace s" by simp
    with run consistent' same' same2 c e(1) False show ?thesis
      by (auto simp: consistent_def)
  qed
qed

lemma destroy_tls_consistent:
  assumes "consistent s" "set es \<subseteq> set (tls s)" "distinct (map fst es)"
  shows "\<exists>s'. destroy_tls es s = Inr s' \<and> consistent s' \<and> handles s' = handles s \<and>
           cells s' = cells s \<and>
           tls s' = filter (\<lambda>e. fst e \<notin> fst ` set es) (tls s)"
  using assms
proof (induction es arbitrary: s)
  case Nil
  then show ?case by simp
next
  case (Cons e es)
  obtain k p where e: "e = (k, p)" by (cases e)
  let ?s1 = "s\<lparr>tls := filter (\<lambda>e. fst e \<noteq> k) (tls s)\<rparr>"
  from Cons.prems e have mem: "(k, p) \<in> set (tls s)" by simp
  from remove_tls_consistent [OF Cons.prems(1) [unfolded consistent_def] mem]
  have "consistent_with [\<lparr>owner = p, counter = None\<rparr>] ?s1" .
  from release_consistent [OF this] obtain s2 where
    rel: "shared_ptr_release p ?s1 = Inr s2" and wf2: "consistent s2" and
    same: "handles s2 = handles s" "tls s2 = filter (\<lambda>e. fst e \<noteq> k) (tls s)"
      "cells s2 = cells s"
    by (auto simp: consistent_def)
  from Cons.prems e have "k \<notin> fst ` set es" "distinct (map fst es)" by auto
  with Cons.prems(2) have sub: "set es \<subseteq> set (tls s2)"
    unfolding same by (auto simp: image_iff)
  from Cons.IH [OF wf2 sub \<open>distinct (map fst es)\<close>] obtain s' where
    s': "destroy_tls es s2 = Inr s'" "consistent s'" "handles s' = handles s2" "cells s' = cells s2"
      "tls s' = filter (\<lambda>e. fst e \<notin> fst ` set es) (tls s2)"
    by blast
  have "destroy_tls (e # es) s = Inr s'"
    using rel s'(1) by (simp add: e)
  moreover have "tls s' = filter (\<lambda>x. fst x \<notin> fst ` set (e # es)) (tls s)"
    unfolding s'(5) same by (auto simp: e intro: filter_cong)
  ultimately show ?case
    using s' same by auto
qed

lemma thread_exit_consistent:
  assumes "consistent s"
  shows "\<exists>s'. thread_exit t s = Inr s' \<and> consistent s' \<and> handles s' = handles s \<and>
           cells s' = cells s \<and> tls s' = filter (\<lambda>e. fst (fst e) \<noteq> t) (tls s)"
proof -
  let ?es = "filter (\<lambda>e. fst (fst e) = t) (tls s)"
  from assms have d: "distinct (map fst (tls s))"
    by (simp add: consistent_def consistent_with_def inv_ids_def)
  then have "distinct (map fst ?es)"
    by (rule distinct_map_filter)
  from destroy_tls_consistent [OF assms _ this] obtain s' where
    s': "destroy_tls ?es s = Inr s'" "consistent s'" "handles s' = handles s" "cells s' = cells s"
      "tls s' = filter (\<lambda>e. fst e \<notin> fst ` set ?es) (tls s)"
    by auto
  have "(fst e \<notin> fst ` set ?es) = (fst (fst e) \<noteq> t)" if "e \<in> set (tls s)" for e
  proof
    assume "fst e \<notin> fst ` set ?es"
    with that show "fst (fst e) \<noteq> t" by force
  next
    assume "fst (fst e) \<noteq> t"
    then show "fst e \<notin> fst ` set ?es" by force
  qed
  then have "filter (\<lambda>e. fst e \<notin> fst ` set ?es) (tls s) =
      filter (\<lambda>e. fst (fst e) \<noteq> t) (tls s)"
    by (intro filter_cong refl)
  with s' show ?thesis
    by (simp add: thread_exit_def)
qed

lemma GetPool_consistent:
  assumes consistent: "consistent s" and run: "step s (GetPool t T new_ok) = Inr s'"
  shows "consistent s' \<and> handles s' = handles s \<and> cells s' = cells s \<and>
         (\<exists>p s1. getPool t T new_ok s = Inr (p, s1) \<and> tls s' = tls s1)"
proof -
  from run obtain p s1 where g: "getPool t T new_ok s = Inr (p, s1)"
    and r: "shared_ptr_release p s1 = Inr s'"
    by (auto simp: and_then_eq_Inr)
  from getPool_consistent [OF consistent [unfolded consistent_def] g] have
    wf1: "consistent_with [\<lparr>owner = p, counter = None\<rparr>] s1" and
    same1: "handles s1 = handles s" "cells s1 = cells s"
    by simp_all
  from release_consistent [OF wf1] r have "consistent s'" "handles s' = handles s1" "cells s' = cells s1"
    "tls s' = tls s1"
    by (auto simp: consistent_def)
  with same1 g show ?thesis by simp
qed

lemma SmallImpl_dtor_Inr_handle:
  assumes "SmallImpl_dtor h s = Inr s'"
  shows "\<exists>x a. map_of (handles s) h = Some x \<and> counter x = Some a"
  using assms
  by (auto simp: SmallImpl_dtor_def SmallImpl_dtor_body_def and_then_eq_Inr
        split: option.splits)

lemma step_consistent:
  assumes consistent: "consistent s" and bound: "length (handles s) + 1 < 2 ^ 64"
    and run: "step s e = Inr s'"
  shows "consistent s' \<and> length (handles s') \<le> length (handles s) + 1"
proof (cases e)
  case (New t T h v new_ok reply)
  with run have "SmallImpl_ctor t T h v new_ok reply s = Inr s'" by simp
  from SmallImpl_ctor_consistent [OF consistent this] show ?thesis by auto
next
  case (Copy t src dst)
  with run have "SmallImpl_copy src dst s = Inr s'" by simp
  from SmallImpl_copy_consistent [OF consistent this bound] show ?thesis by auto
next
  case (Delete t h)
  with run have r: "SmallImpl_dtor h s = Inr s'" by simp
  from SmallImpl_dtor_Inr_handle [OF r] obtain x a where
    "map_of (handles s) h = Some x" "counter x = Some a" by blast
  from SmallImpl_dtor_consistent [OF consistent this] r have "consistent s'"
    "handles s' = filter (\<lambda>e. fst e \<noteq> h) (handles s)" by auto
  then show ?thesis
    by (simp add: le_SucI)
next
  case (GetPool t T new_ok)
  with GetPool_consistent [OF consistent] run show ?thesis by auto
next
  case (ThreadExit t)
  with thread_exit_consistent [OF consistent, of t] run show ?thesis by auto
qed

lemma run_consistent:
  assumes "consistent s" "length (handles s) + length evs < 2 ^ 64" "run s evs = Inr s'"
  shows "consistent s' \<and> length (handles s') \<le> length (handles s) + length evs"
  using assms
proof (induction evs arbitrary: s)
  case Nil
  then show ?case by simp
next
  case (Cons e evs)
  from Cons.prems(3) obtain s1 where e: "step s e = Inr s1" and r: "run s1 evs = Inr s'"
    by (auto simp: and_then_eq_Inr)
  from Cons.prems(2) have "length (handles s) + 1 < 2 ^ 64" by simp
  from step_consistent [OF Cons.prems(1) this e] have wf1: "consistent s1"
    and len: "length (handles s1) \<le> length (handles s) + 1" by simp_all
  from len Cons.prems(2) have "length (handles s1) + length evs < 2 ^ 64" by simp
  from Cons.IH [OF wf1 this r] len show ?case by simp
qed

lemma reachable_consistent:
  assumes "run init evs = Inr s" "length evs < 2 ^ 64"
  shows "consistent s \<and> length (handles s) \<le> length evs"
  using run_consistent [OF consistent_init _ assms(1)] assms(2) by (simp add: init_def)

lemma run_append:
  "run s (xs @ ys) = and_then (run s xs) (\<lambda>s1. run s1 ys)"
  by (induction xs arbitrary: s) (simp_all add: and_then_def split: sum.splits)

subsection \<open>The use-count counts the handles\<close>

lemma in_use_iff_handle:
  assumes "consistent s"
  shows "in_use p a s = (\<exists>x \<in> set (map snd (handles s)). owner x = p \<and> counter x = Some a)"
proof
  note w = consistent_withD [OF assms [unfolded consistent_def]]
  assume use: "in_use p a s"
  from in_use_cell [OF w(5) use] obtain c where "cells s a = Some c" by auto
  from cell_has_handle [OF w(2) this] obtain x where
    x: "x \<in> set (map snd (handles s))" "counter x = Some a"
    by (auto simp: live_handles_def)
  with w(3) have "in_use (owner x) a s"
    unfolding inv_handles_def by (auto simp: live_handles_def)
  from in_use_unique [OF w(6) this use] x
  show "\<exists>x \<in> set (map snd (handles s)). owner x = p \<and> counter x = Some a" by blast
next
  note w = consistent_withD [OF assms [unfolded consistent_def]]
  assume "\<exists>x \<in> set (map snd (handles s)). owner x = p \<and> counter x = Some a"
  with w(3) show "in_use p a s"
    unfolding inv_handles_def by (auto simp: live_handles_def)
qed

lemma handle_cell_alive:
  assumes "consistent s" "map_of (handles s) h = Some x" "counter x = Some a"
  shows "in_use (owner x) a s \<and> (\<exists>c. cells s a = Some c \<and> uses c \<noteq> 0 \<and>
           unat (uses c) = cell_refs a (map snd (handles s)))"
proof -
  note w = consistent_withD [OF assms(1) [unfolded consistent_def]]
  from assms(2) have "x \<in> set (map snd (handles s))"
    by (force dest: map_of_SomeD)
  with assms(3) have use: "in_use (owner x) a s"
    using in_use_iff_handle [OF assms(1), of "owner x" a] by blast
  from in_use_cell [OF w(5) use] obtain c where c: "cells s a = Some c" by auto
  with w(2) have "unat (uses c) = cell_refs a (map snd (handles s))"
    "0 < cell_refs a (map snd (handles s))"
    unfolding inv_counts_def by (auto simp: live_handles_def)
  then have "uses c \<noteq> 0" by auto
  with use c \<open>unat (uses c) = _\<close> show ?thesis by blast
qed

text \<open>
  Construction, copy construction and destruction keep the count. A cell is constructed
  with use-count 1. In every state a run reaches (a run of fewer than \<open>2 ^ 64\<close> events,
  so that no count wraps around), the use-count of every cell is the number of live
  handles that refer to it and is not zero, and every live handle with a cell refers to a
  cell that exists. Destroying such a handle, on any thread, succeeds: if it is the last
  handle of the cell, the cell is destroyed and freed to its owner's pool once; otherwise
  the cell stays, with its count one lower, and nothing is freed. Over the whole run, a
  chunk has been constructed in a pool exactly once more than it has been freed to that
  pool while a live handle refers to it, and exactly as often when none does.
\<close>

lemma use_count_is_number_of_handles:
  assumes "run init evs = Inr s" and "length evs < 2 ^ 64"
  shows "uses (AtomicCounter_ctor v) = 1 \<and>
         (\<forall>a c. cells s a = Some c \<longrightarrow>
            unat (uses c) = cell_refs a (map snd (handles s)) \<and> uses c \<noteq> 0) \<and>
         (\<forall>h x a. map_of (handles s) h = Some x \<longrightarrow> counter x = Some a \<longrightarrow>
            (\<exists>c s'. cells s a = Some c \<and> uses c \<noteq> 0 \<and> (\<forall>t. step s (Delete t h) = Inr s') \<and>
               (if cell_refs a (map snd (handles s)) = 1
                then cells s' a = None \<and>
                     count_list (trace s') (Freed (owner x) a) =
                       Suc (count_list (trace s) (Freed (owner x) a))
                else cells s' a = Some (c\<lparr>uses := uses c - 1\<rparr>) \<and> trace s' = trace s))) \<and>
         (\<forall>p a. count_list (trace s) (Constructed p a) =
            count_list (trace s) (Freed p a) +
            (if \<exists>x \<in> set (map snd (handles s)). owner x = p \<and> counter x = Some a
             then 1 else 0))"
proof -
  from reachable_consistent [OF assms] have c: "consistent s" ..
  note w = consistent_withD [OF c [unfolded consistent_def]]
  have 1: "uses (AtomicCounter_ctor v) = 1"
    by (simp add: AtomicCounter_ctor_def)
  have 2: "\<forall>a c. cells s a = Some c \<longrightarrow>
            unat (uses c) = cell_refs a (map snd (handles s)) \<and> uses c \<noteq> 0"
  proof (intro allI impI)
    fix a d
    assume "cells s a = Some d"
    with w(2) have "unat (uses d) = cell_refs a (map snd (handles s))"
      "0 < cell_refs a (map snd (handles s))"
      unfolding inv_counts_def by (auto simp: live_handles_def)
    then show "unat (uses d) = cell_refs a (map snd (handles s)) \<and> uses d \<noteq> 0"
      by auto
  qed
  have 3: "\<exists>d s'. cells s a = Some d \<and> uses d \<noteq> 0 \<and> (\<forall>t. step s (Delete t h) = Inr s') \<and>
               (if cell_refs a (map snd (handles s)) = 1
                then cells s' a = None \<and>
                     count_list (trace s') (Freed (owner x) a) =
                       Suc (count_list (trace s) (Freed (owner x) a))
                else cells s' a = Some (d\<lparr>uses := uses d - 1\<rparr>) \<and> trace s' = trace s)"
    if x: "map_of (handles s) h = Some x" and a: "counter x = Some a" for h x a
  proof -
    from SmallImpl_dtor_consistent [OF c x a] obtain s' d where
      r: "SmallImpl_dtor h s = Inr s'" and d: "cells s a = Some d" and
      eff: "if cell_refs a (map snd (handles s)) = 1
            then cells s' = (cells s)(a := None) \<and>
                 (\<exists>tail. trace s' = trace s @ [Lock (owner x), Destroyed a,
                                             Freed (owner x) a, Unlock (owner x)] @ tail \<and>
                    (tail = [] \<or> tail = [PoolDeleted (owner x)]))
            else cells s' = (cells s)(a \<mapsto> d\<lparr>uses := uses d - 1\<rparr>) \<and>
                 trace s' = trace s"
      by blast
    from 2 d have nz: "uses d \<noteq> 0" by blast
    show ?thesis
    proof (cases "cell_refs a (map snd (handles s)) = 1")
      case True
      with eff have "cells s' a = None"
        "count_list (trace s') (Freed (owner x) a) =
           Suc (count_list (trace s) (Freed (owner x) a))"
        by auto
      with True d nz r show ?thesis by auto
    next
      case False
      with eff d nz r show ?thesis by auto
    qed
  qed
  have 4: "\<forall>p a. count_list (trace s) (Constructed p a) =
            count_list (trace s) (Freed p a) +
            (if \<exists>x \<in> set (map snd (handles s)). owner x = p \<and> counter x = Some a
             then 1 else 0)"
    using w(7) unfolding inv_trace_def in_use_iff_handle [OF c] .
  from 1 2 3 4 show ?thesis by blast
qed

lemma use_count_is_number_of_handles_example:
  "\<exists>s :: string state.
     run init [New 0 0 1 ''kek'' True (Block 2), Copy 1 1 2] = Inr s \<and>
     map_option uses (cells s 1) = Some 2 \<and>
     cell_refs 1 (map snd (handles s)) = 2 \<and>
     (\<exists>s'. step s (Delete 1 2) = Inr s' \<and> map_option uses (cells s' 1) = Some 1)"
proof -
  obtain s :: "string state" where
    r: "run init [New 0 0 1 ''kek'' True (Block 2), Copy 1 1 2] = Inr s"
    by (simp add: op_defs)
  have b: "length [New 0 0 1 ''kek'' True (Block 2), Copy 1 1 2 :: string event] < 2 ^ 64"
    by simp
  have cell: "cells s 1 = Some \<lparr>data = ''kek'', uses = 2\<rparr>"
    using r by (auto simp: op_defs)
  have h2: "map_of (handles s) 2 = Some \<lparr>owner = 0, counter = Some 1\<rparr>"
    using r by (auto simp: op_defs)
  note T = use_count_is_number_of_handles [OF r b, of "''kek''"]
  from T [THEN conjunct2, THEN conjunct1] cell
  have refs: "unat (uses \<lparr>data = ''kek'', uses = 2\<rparr>) = cell_refs 1 (map snd (handles s))"
    by blast
  then have two: "cell_refs 1 (map snd (handles s)) = 2" by simp
  from T [THEN conjunct2, THEN conjunct2, THEN conjunct1, rule_format, OF h2, of 1] cell two
  obtain s' where "\<forall>t. step s (Delete t 2) = Inr s'"
    "cells s' 1 = Some (\<lparr>data = ''kek'', uses = 2\<rparr>\<lparr>uses := 2 - 1\<rparr>)"
    by auto
  then have "step s (Delete 1 2) = Inr s'" "map_option uses (cells s' 1) = Some 1"
    by simp_all
  with r cell two show ?thesis by auto
qed

text \<open>
  Claim C2 says that the use-count is the number of live handles of the cell after every
  sequence of copies and destructions. Assignment is a copy that breaks it. After
  \<^verbatim>\<open>Small<std::string> h1("kek"), h2("lol"); h2 = h1;\<close> both handles refer to the cell of
  \<^verbatim>\<open>h1\<close>, whose count is still 1, and no handle refers to the cell of \<^verbatim>\<open>h2\<close>, whose
  count is still 1 and which no destructor will release. Destroying \<^verbatim>\<open>h1\<close> releases the
  cell that \<^verbatim>\<open>h2\<close> refers to; reading \<^verbatim>\<open>h2\<close> or destroying it then uses a dead cell.
\<close>

theorem assignment_skips_increment:
  "\<exists>s0 s s1 s2 :: string state.
     SmallImpl_ctor 0 0 1 ''kek'' True (Block 2) init = Inr s0 \<and>
     SmallImpl_ctor 0 0 2 ''lol'' True (Block 2) s0 = Inr s \<and>
     handles s = [(2, \<lparr>owner = 0, counter = Some 2\<rparr>), (1, \<lparr>owner = 0, counter = Some 1\<rparr>)] \<and>
     SmallImpl_assign 2 1 s = Inr s1 \<and>
     handles s1 = [(2, \<lparr>owner = 0, counter = Some 1\<rparr>), (1, \<lparr>owner = 0, counter = Some 1\<rparr>)] \<and>
     cells s1 1 = Some \<lparr>data = ''kek'', uses = 1\<rparr> \<and>
     cell_refs 1 (map snd (handles s1)) = 2 \<and>
     cells s1 2 = Some \<lparr>data = ''lol'', uses = 1\<rparr> \<and>
     cell_refs 2 (map snd (handles s1)) = 0 \<and>
     SmallImpl_dtor 1 s1 = Inr s2 \<and>
     trace s2 = trace s1 @ [Lock 0, Destroyed 1, Freed 0 1, Unlock 0] \<and>
     cells s2 1 = None \<and>
     handles s2 = [(2, \<lparr>owner = 0, counter = Some 1\<rparr>)] \<and>
     SmallImpl_data 2 s2 = Inl undefined_behaviour \<and>
     SmallImpl_dtor 2 s2 = Inl undefined_behaviour"
  by (simp add: op_defs SmallImpl_assign_def cell_refs_def)

subsection \<open>The owning pool\<close>

lemma map_of_filter_key:
  "k \<noteq> h \<Longrightarrow> map_of (filter (\<lambda>e. fst e \<noteq> h) xs) k = map_of xs k"
  by (induction xs) auto

lemma step_keeps_handle:
  assumes c: "consistent s" and bound: "length (handles s) + 1 < 2 ^ 64"
    and x: "map_of (handles s) h = Some x"
    and run: "step s e = Inr s'" and ne: "\<forall>t. e \<noteq> Delete t h"
  shows "map_of (handles s') h = Some x"
proof (cases e)
  case (New t T h' v new_ok reply)
  with run have r: "SmallImpl_ctor t T h' v new_ok reply s = Inr s'" by simp
  then have "h' \<notin> fst ` set (handles s)"
    by (auto simp: SmallImpl_ctor_def split: if_splits)
  with x have "h' \<noteq> h"
    by (metis map_of_fresh option.distinct(1))
  with SmallImpl_ctor_consistent [OF c r] x show ?thesis by auto
next
  case (Copy t src dst)
  with run have r: "SmallImpl_copy src dst s = Inr s'" by simp
  then have "dst \<notin> fst ` set (handles s)"
    by (auto simp: SmallImpl_copy_def split: option.splits if_splits)
  with x have "dst \<noteq> h"
    by (metis map_of_fresh option.distinct(1))
  with SmallImpl_copy_consistent [OF c r bound] x show ?thesis by auto
next
  case (Delete t h')
  with ne have ne': "h \<noteq> h'" by auto
  from Delete run have r: "SmallImpl_dtor h' s = Inr s'" by simp
  from SmallImpl_dtor_Inr_handle [OF r] obtain y b where
    "map_of (handles s) h' = Some y" "counter y = Some b" by blast
  from SmallImpl_dtor_consistent [OF c this] r
  have "handles s' = filter (\<lambda>e. fst e \<noteq> h') (handles s)" by auto
  with x ne' show ?thesis by (simp add: map_of_filter_key)
next
  case (GetPool t T new_ok)
  with GetPool_consistent [OF c] run x show ?thesis by auto
next
  case (ThreadExit t)
  with thread_exit_consistent [OF c, of t] run x show ?thesis by auto
qed

lemma run_keeps_handle:
  assumes "consistent s" "length (handles s) + length evs < 2 ^ 64"
    "map_of (handles s) h = Some x" "run s evs = Inr s'" "\<forall>t. Delete t h \<notin> set evs"
  shows "map_of (handles s') h = Some x \<and> consistent s'"
  using assms
proof (induction evs arbitrary: s)
  case Nil
  then show ?case by simp
next
  case (Cons e evs)
  from Cons.prems(4) obtain s1 where e: "step s e = Inr s1" and r: "run s1 evs = Inr s'"
    by (auto simp: and_then_eq_Inr)
  from Cons.prems(2) have b: "length (handles s) + 1 < 2 ^ 64" by simp
  from Cons.prems(5) have ne: "\<forall>t. e \<noteq> Delete t h" "\<forall>t. Delete t h \<notin> set evs" by auto
  from step_consistent [OF Cons.prems(1) b e] have c1: "consistent s1"
    and len: "length (handles s1) \<le> length (handles s) + 1" by simp_all
  from len Cons.prems(2) have b1: "length (handles s1) + length evs < 2 ^ 64" by simp
  from step_keeps_handle [OF Cons.prems(1) b Cons.prems(3) e ne(1)]
  have "map_of (handles s1) h = Some x" .
  from Cons.IH [OF c1 b1 this r ne(2)] show ?case .
qed

text \<open>
  Claim C5. Take a live handle with a cell in a reachable state and run on, through any
  events that do not destroy this handle; threads may end, the creating thread among
  them. The handle still names the same pool and the same cell; that pool still exists,
  with a positive count, and the cell is a chunk in use of it and of no other pool; every
  handle of the cell names the same pool. Destroying the handle then, on whatever thread
  \<open>t\<close>, succeeds, frees nothing to any other pool, and frees the cell to the pool the
  handle names exactly when the handle is the last one of the cell.
\<close>

theorem release_goes_to_owner:
  assumes "run init evs = Inr s" and "length evs + length evs' < 2 ^ 64"
    and "map_of (handles s) h = Some x" and "counter x = Some a"
    and "run s evs' = Inr s'" and "\<forall>t. Delete t h \<notin> set evs'"
  shows "map_of (handles s') h = Some x \<and>
         (\<exists>P. pools s' (owner x) = Some P \<and> a \<in> set (chunks (pool P)) \<and>
               a \<notin> set (free_list (pool P))) \<and>
         0 < use_count s' (owner x) \<and>
         (\<forall>q. in_use q a s' \<longrightarrow> q = owner x) \<and>
         (\<forall>h' y. map_of (handles s') h' = Some y \<longrightarrow> counter y = Some a \<longrightarrow>
            owner y = owner x) \<and>
         (\<forall>t. \<exists>s'' new. step s' (Delete t h) = Inr s'' \<and> trace s'' = trace s' @ new \<and>
            (\<forall>q b. Freed q b \<in> set new \<longrightarrow> q = owner x \<and> b = a) \<and>
            (Freed (owner x) a \<in> set new) = (cell_refs a (map snd (handles s')) = 1))"
proof -
  from reachable_consistent [OF assms(1)] assms(2)
  have c: "consistent s" and len: "length (handles s) \<le> length evs" by simp_all
  from len assms(2) have b: "length (handles s) + length evs' < 2 ^ 64" by simp
  from run_keeps_handle [OF c b assms(3) assms(5) assms(6)]
  have x: "map_of (handles s') h = Some x" and c': "consistent s'" by simp_all
  note w = consistent_withD [OF c' [unfolded consistent_def]]
  from handle_cell_alive [OF c' x assms(4)] have use: "in_use (owner x) a s'" ..
  from in_useD [OF use] obtain P where P: "pools s' (owner x) = Some P"
    "a \<in> set (chunks (pool P))" "a \<notin> set (free_list (pool P))" by blast
  from w(4) P(1) have cnt: "0 < use_count s' (owner x)"
    unfolding inv_pools_def by force
  have uniq: "\<forall>q. in_use q a s' \<longrightarrow> q = owner x"
    using in_use_unique [OF w(6) _ use] by blast
  have agree: "\<forall>h' y. map_of (handles s') h' = Some y \<longrightarrow> counter y = Some a \<longrightarrow>
            owner y = owner x"
  proof (intro allI impI)
    fix h' y
    assume "map_of (handles s') h' = Some y" "counter y = Some a"
    from handle_cell_alive [OF c' this] have "in_use (owner y) a s'" ..
    with uniq show "owner y = owner x" by blast
  qed
  from SmallImpl_dtor_consistent [OF c' x assms(4)] obtain s'' d where
    r: "SmallImpl_dtor h s' = Inr s''" and
    eff: "if cell_refs a (map snd (handles s')) = 1
          then cells s'' = (cells s')(a := None) \<and>
               (\<exists>tail. trace s'' = trace s' @ [Lock (owner x), Destroyed a,
                                           Freed (owner x) a, Unlock (owner x)] @ tail \<and>
                  (tail = [] \<or> tail = [PoolDeleted (owner x)]))
          else cells s'' = (cells s')(a \<mapsto> d\<lparr>uses := uses d - 1\<rparr>) \<and>
               trace s'' = trace s'"
    by blast
  have "\<exists>new. trace s'' = trace s' @ new \<and>
            (\<forall>q b. Freed q b \<in> set new \<longrightarrow> q = owner x \<and> b = a) \<and>
            (Freed (owner x) a \<in> set new) = (cell_refs a (map snd (handles s')) = 1)"
  proof (cases "cell_refs a (map snd (handles s')) = 1")
    case True
    with eff obtain tail where
      "trace s'' = trace s' @ [Lock (owner x), Destroyed a,
                                           Freed (owner x) a, Unlock (owner x)] @ tail"
      "tail = [] \<or> tail = [PoolDeleted (owner x)]"
      by auto
    with True show ?thesis by auto
  next
    case False
    with eff have "trace s'' = trace s' @ []" by simp
    with False show ?thesis by (intro exI [of _ "[]"]) simp
  qed
  with r have "\<forall>t. \<exists>s'' new. step s' (Delete t h) = Inr s'' \<and> trace s'' = trace s' @ new \<and>
            (\<forall>q b. Freed q b \<in> set new \<longrightarrow> q = owner x \<and> b = a) \<and>
            (Freed (owner x) a \<in> set new) = (cell_refs a (map snd (handles s')) = 1)"
    by auto
  with x P cnt uniq agree show ?thesis by blast
qed

theorem release_goes_to_owner_witness:
  "\<exists>s s' s'' :: string state.
     run init [New 0 0 1 ''kek'' True (Block 2), GetPool 1 0 True] = Inr s \<and>
     run s [ThreadExit 0] = Inr s' \<and>
     map_of (tls s') (0, 0) = None \<and> map_of (tls s') (1, 0) = Some 1 \<and>
     map_of (handles s') 1 = Some \<lparr>owner = 0, counter = Some 1\<rparr> \<and>
     pools s' 0 \<noteq> None \<and>
     step s' (Delete 1 1) = Inr s'' \<and>
     Freed 0 1 \<in> set (trace s'') \<and> Freed 1 1 \<notin> set (trace s'')"
proof -
  obtain s :: "string state" where
    r: "run init [New 0 0 1 ''kek'' True (Block 2), GetPool 1 0 True] = Inr s"
    by (simp add: op_defs)
  have x: "map_of (handles s) 1 = Some \<lparr>owner = 0, counter = Some 1\<rparr>"
    using r by (auto simp: op_defs)
  have tl: "tls s = [((1, 0), 1), ((0, 0), 0)]" "use_count s 0 = 2" "use_count s 1 = 1"
    "handles s = [(1, \<lparr>owner = 0, counter = Some 1\<rparr>)]"
    "Freed 1 1 \<notin> set (trace s)" "Freed 0 1 \<notin> set (trace s)"
    using r by (auto simp: op_defs)
  obtain s' :: "string state" where r': "run s [ThreadExit 0] = Inr s'"
    using tl by (simp add: op_defs)
  have t: "map_of (tls s') (0, 0) = None" "map_of (tls s') (1, 0) = Some 1"
    "Freed 1 1 \<notin> set (trace s')" "Freed 0 1 \<notin> set (trace s')"
    "handles s' = [(1, \<lparr>owner = 0, counter = Some 1\<rparr>)]"
    using r' tl by (auto simp: op_defs)
  have b: "length [New 0 0 1 ''kek'' True (Block 2), GetPool 1 0 True :: string event] +
           length [ThreadExit 0 :: string event] < 2 ^ 64"
    by simp
  have nd: "\<forall>t. Delete t 1 \<notin> set [ThreadExit 0 :: string event]" by simp
  have a: "counter \<lparr>owner = 0, counter = Some 1\<rparr> = Some 1" by simp
  note T = release_goes_to_owner [OF r b x a r' nd]
  from T [THEN conjunct1] have keep: "map_of (handles s') 1 = Some \<lparr>owner = 0, counter = Some 1\<rparr>" .
  from T [THEN conjunct2, THEN conjunct1] have live: "pools s' 0 \<noteq> None" by auto
  from T [THEN conjunct2, THEN conjunct2, THEN conjunct2, THEN conjunct2, THEN conjunct2,
      THEN spec, of 1]
  obtain s'' new where
    d: "step s' (Delete 1 1) = Inr s''" "trace s'' = trace s' @ new"
      "\<forall>q b. Freed q b \<in> set new \<longrightarrow> q = owner \<lparr>owner = 0, counter = Some 1\<rparr> \<and> b = 1"
      "(Freed (owner \<lparr>owner = 0, counter = Some 1\<rparr>) 1 \<in> set new) =
         (cell_refs 1 (map snd (handles s')) = 1)"
    by blast
  from d(4) t(5) have "Freed 0 1 \<in> set new" by simp
  moreover from d(3) have "Freed 1 1 \<notin> set new" by auto
  ultimately have "Freed 0 1 \<in> set (trace s'')" "Freed 1 1 \<notin> set (trace s'')"
    using d(2) t(3) by simp_all
  with r r' t(1,2) keep live d(1) show ?thesis by blast
qed

subsection \<open>One pool per thread and payload type\<close>

lemma map_of_filter_pred:
  "Q (k, v) \<Longrightarrow> map_of xs k = Some v \<Longrightarrow> (\<And>w. Q (k, w) = Q (k, v)) \<Longrightarrow>
   map_of (filter Q xs) k = Some v"
  by (induction xs) (auto split: if_splits)

lemma step_keeps_tls:
  assumes c: "consistent s" and p: "map_of (tls s) (t, T) = Some p"
    and run: "step s e = Inr s'" and ne: "e \<noteq> ThreadExit t"
  shows "map_of (tls s') (t, T) = Some p"
proof (cases e)
  case (New t' T' h v new_ok reply)
  with run have r: "SmallImpl_ctor t' T' h v new_ok reply s = Inr s'" by simp
  from SmallImpl_ctor_consistent [OF c r] obtain q where
    "case map_of (tls s) (t', T') of
       Some r \<Rightarrow> r = q \<and> tls s' = tls s
     | None \<Rightarrow> q = next_pool s \<and> pools s q = None \<and> tls s' = ((t', T'), q) # tls s"
    by blast
  with p show ?thesis by (auto split: option.splits)
next
  case (Copy t' src dst)
  with run have r: "SmallImpl_copy src dst s = Inr s'" by simp
  from SmallImpl_copy_Inr [OF r] p show ?thesis by auto
next
  case (Delete t' h)
  with run have r: "SmallImpl_dtor h s = Inr s'" by simp
  from SmallImpl_dtor_Inr_handle [OF r] obtain y b where
    "map_of (handles s) h = Some y" "counter y = Some b" by blast
  from SmallImpl_dtor_consistent [OF c this] r p show ?thesis by auto
next
  case (GetPool t' T' new_ok)
  with GetPool_consistent [OF c] run obtain q s1 where
    g: "getPool t' T' new_ok s = Inr (q, s1)" and tl: "tls s' = tls s1" by blast
  from getPool_consistent [OF c [unfolded consistent_def] g] have
    "case map_of (tls s) (t', T') of
            Some r \<Rightarrow> r = q \<and> tls s1 = tls s \<and> pools s1 = pools s \<and> trace s1 = trace s
          | None \<Rightarrow> q = next_pool s \<and> pools s q = None \<and> tls s1 = ((t', T'), q) # tls s \<and>
                    trace s1 = trace s @ [PoolCreated q]"
    by simp
  with p tl show ?thesis by (auto split: option.splits)
next
  case (ThreadExit t')
  with ne have "t' \<noteq> t" by simp
  with thread_exit_consistent [OF c, of t'] ThreadExit run
  have "tls s' = filter (\<lambda>e. fst (fst e) \<noteq> t') (tls s)" by auto
  with p \<open>t' \<noteq> t\<close> show ?thesis
    by (simp add: map_of_filter_pred)
qed

lemma run_keeps_tls:
  assumes "consistent s" "length (handles s) + length evs < 2 ^ 64"
    "map_of (tls s) (t, T) = Some p" "run s evs = Inr s'" "ThreadExit t \<notin> set evs"
  shows "map_of (tls s') (t, T) = Some p \<and> consistent s'"
  using assms
proof (induction evs arbitrary: s)
  case Nil
  then show ?case by simp
next
  case (Cons e evs)
  from Cons.prems(4) obtain s1 where e: "step s e = Inr s1" and r: "run s1 evs = Inr s'"
    by (auto simp: and_then_eq_Inr)
  from Cons.prems(2) have b: "length (handles s) + 1 < 2 ^ 64" by simp
  from Cons.prems(5) have ne: "e \<noteq> ThreadExit t" "ThreadExit t \<notin> set evs" by auto
  from step_consistent [OF Cons.prems(1) b e] have c1: "consistent s1"
    and len: "length (handles s1) \<le> length (handles s) + 1" by simp_all
  from len Cons.prems(2) have b1: "length (handles s1) + length evs < 2 ^ 64" by simp
  from step_keeps_tls [OF Cons.prems(1) Cons.prems(3) e ne(1)]
  have "map_of (tls s1) (t, T) = Some p" .
  from Cons.IH [OF c1 b1 this r ne(2)] show ?case .
qed

lemma distinct_snd_key:
  assumes "distinct (map snd xs)" "(k1, v) \<in> set xs" "(k2, v) \<in> set xs"
  shows "k1 = k2"
proof -
  from assms(1) have "inj_on snd (set xs)"
    by (simp add: distinct_map)
  from inj_onD [OF this _ assms(2,3)] show ?thesis by simp
qed

text \<open>
  Claim C6. A call of \<^verbatim>\<open>getPool<T>()\<close> on thread \<open>t\<close> (on its own, or in a
  constructor) that finds the thread's variable uninitialised creates a pool that did
  not exist and that no thread's variable held; one that finds it initialised returns
  the pool it holds and creates nothing. After any further events that do not end the
  thread, the pool still exists and every \<^verbatim>\<open>getPool<T>()\<close> on \<open>t\<close> returns it again. The
  variable of any other thread or payload type holds another pool, and the two pools
  share no chunk.
\<close>

theorem getPool_same_instance:
  assumes "run init (evs1 @ e # evs2) = Inr s" and "length (evs1 @ e # evs2) < 2 ^ 64"
    and "e = GetPool t T new_ok \<or> e = New t T h v new_ok reply"
    and "ThreadExit t \<notin> set evs2"
  shows "\<exists>s0 p s1.
           run init evs1 = Inr s0 \<and> getPool t T new_ok s0 = Inr (p, s1) \<and>
           (map_of (tls s0) (t, T) = None \<longrightarrow>
              pools s0 p = None \<and> pools s1 p \<noteq> None \<and> (\<forall>k. map_of (tls s0) k \<noteq> Some p)) \<and>
           (\<forall>q. map_of (tls s0) (t, T) = Some q \<longrightarrow> q = p \<and> pools s1 = pools s0) \<and>
           pools s p \<noteq> None \<and>
           (\<forall>ok. \<exists>s'. getPool t T ok s = Inr (p, s')) \<and>
           (\<forall>k q. k \<noteq> (t, T) \<longrightarrow> map_of (tls s) k = Some q \<longrightarrow>
              q \<noteq> p \<and>
              (\<exists>P Q. pools s p = Some P \<and> pools s q = Some Q \<and>
                 set (chunks (pool P)) \<inter> set (chunks (pool Q)) = {}))"
proof -
  from assms(1) obtain s0 sa where
    r0: "run init evs1 = Inr s0" and e: "step s0 e = Inr sa" and r2: "run sa evs2 = Inr s"
    by (auto simp: run_append and_then_eq_Inr)
  from assms(2) have b0: "length evs1 < 2 ^ 64" by simp
  from reachable_consistent [OF r0 b0] have c0: "consistent s0"
    and len0: "length (handles s0) \<le> length evs1" by simp_all
  from len0 assms(2) have b1: "length (handles s0) + 1 < 2 ^ 64" by simp
  from step_consistent [OF c0 b1 e] have ca: "consistent sa"
    and lena: "length (handles sa) \<le> length (handles s0) + 1" by simp_all
  from lena len0 assms(2) have b2: "length (handles sa) + length evs2 < 2 ^ 64" by simp
  have "\<exists>p s1. getPool t T new_ok s0 = Inr (p, s1) \<and> map_of (tls sa) (t, T) = Some p"
  proof (cases "e = GetPool t T new_ok")
    case True
    with GetPool_consistent [OF c0] e obtain p s1 where
      g: "getPool t T new_ok s0 = Inr (p, s1)" and tl: "tls sa = tls s1" by blast
    from getPool_consistent [OF c0 [unfolded consistent_def] g]
    have "map_of (tls s1) (t, T) = Some p" by simp
    with g tl show ?thesis by auto
  next
    case False
    with assms(3) e have "SmallImpl_ctor t T h v new_ok reply s0 = Inr sa" by simp
    from SmallImpl_ctor_consistent [OF c0 this] show ?thesis by blast
  qed
  then obtain p s1 where g: "getPool t T new_ok s0 = Inr (p, s1)"
    and tla: "map_of (tls sa) (t, T) = Some p" by blast
  from getPool_consistent [OF c0 [unfolded consistent_def] g] have
    c1: "consistent_with [\<lparr>owner = p, counter = None\<rparr>] s1" and
    cs: "case map_of (tls s0) (t, T) of
            Some q \<Rightarrow> q = p \<and> tls s1 = tls s0 \<and> pools s1 = pools s0 \<and> trace s1 = trace s0
          | None \<Rightarrow> p = next_pool s0 \<and> pools s0 p = None \<and> tls s1 = ((t, T), p) # tls s0 \<and>
                    trace s1 = trace s0 @ [PoolCreated p]"
    by simp_all
  note w0 = consistent_withD [OF c0 [unfolded consistent_def]]
  from in_flight_pool [OF consistent_withD(4) [OF c1]] have live1: "pools s1 p \<noteq> None"
    by auto
  have first: "map_of (tls s0) (t, T) = None \<longrightarrow>
              pools s0 p = None \<and> pools s1 p \<noteq> None \<and> (\<forall>k. map_of (tls s0) k \<noteq> Some p)"
  proof
    assume "map_of (tls s0) (t, T) = None"
    with cs have dead: "pools s0 p = None" by auto
    have "map_of (tls s0) k \<noteq> Some p" for k
    proof
      assume "map_of (tls s0) k = Some p"
      then have "(k, p) \<in> set (tls s0)" by (rule map_of_SomeD)
      from tls_value_live [OF w0(4) this] dead show False by simp
    qed
    with dead live1 show "pools s0 p = None \<and> pools s1 p \<noteq> None \<and>
        (\<forall>k. map_of (tls s0) k \<noteq> Some p)"
      by blast
  qed
  have later: "\<forall>q. map_of (tls s0) (t, T) = Some q \<longrightarrow> q = p \<and> pools s1 = pools s0"
    using cs by auto
  from run_keeps_tls [OF ca b2 tla r2 assms(4)]
  have tl: "map_of (tls s) (t, T) = Some p" and c: "consistent s" by simp_all
  note w = consistent_withD [OF c [unfolded consistent_def]]
  from tl have mem: "((t, T), p) \<in> set (tls s)" by (rule map_of_SomeD)
  from tls_value_live [OF w(4) mem] obtain P where P: "pools s p = Some P" by blast
  have again: "\<forall>ok. \<exists>s'. getPool t T ok s = Inr (p, s')"
    using tl by (simp add: getPool_def)
  have others: "\<forall>k q. k \<noteq> (t, T) \<longrightarrow> map_of (tls s) k = Some q \<longrightarrow>
              q \<noteq> p \<and>
              (\<exists>P Q. pools s p = Some P \<and> pools s q = Some Q \<and>
                 set (chunks (pool P)) \<inter> set (chunks (pool Q)) = {})"
  proof (intro allI impI)
    fix k q
    assume k: "k \<noteq> (t, T)" and q: "map_of (tls s) k = Some q"
    from q have memq: "(k, q) \<in> set (tls s)" by (rule map_of_SomeD)
    from w(1) have d: "distinct (map snd (tls s))" by (simp add: inv_ids_def)
    have ne: "q \<noteq> p"
    proof
      assume "q = p"
      with memq mem distinct_snd_key [OF d] have "k = (t, T)" by blast
      with k show False by simp
    qed
    from tls_value_live [OF w(4) memq] obtain Q where Q: "pools s q = Some Q" by blast
    from w(6) P Q ne have "set (chunks (pool P)) \<inter> set (chunks (pool Q)) = {}"
      unfolding inv_disjoint_def by blast
    with ne P Q show "q \<noteq> p \<and>
              (\<exists>P Q. pools s p = Some P \<and> pools s q = Some Q \<and>
                 set (chunks (pool P)) \<inter> set (chunks (pool Q)) = {})"
      by blast
  qed
  from P have live: "pools s p \<noteq> None" by simp
  show ?thesis
  proof (intro exI conjI)
    show "run init evs1 = Inr s0" by (rule r0)
    show "getPool t T new_ok s0 = Inr (p, s1)" by (rule g)
    show "map_of (tls s0) (t, T) = None \<longrightarrow>
              pools s0 p = None \<and> pools s1 p \<noteq> None \<and> (\<forall>k. map_of (tls s0) k \<noteq> Some p)"
      by (rule first)
    show "\<forall>q. map_of (tls s0) (t, T) = Some q \<longrightarrow> q = p \<and> pools s1 = pools s0"
      by (rule later)
    show "pools s p \<noteq> None" by (rule live)
    show "\<forall>ok. \<exists>s'. getPool t T ok s = Inr (p, s')" by (rule again)
    show "\<forall>k q. k \<noteq> (t, T) \<longrightarrow> map_of (tls s) k = Some q \<longrightarrow>
              q \<noteq> p \<and>
              (\<exists>P Q. pools s p = Some P \<and> pools s q = Some Q \<and>
                 set (chunks (pool P)) \<inter> set (chunks (pool Q)) = {})"
      by (rule others)
  qed
qed

theorem getPool_same_instance_witness:
  "\<exists>s :: string state.
     run init [GetPool 0 0 True, New 0 0 1 ''kek'' True (Block 2), GetPool 1 0 True] = Inr s \<and>
     (\<forall>ok. \<exists>s'. getPool 0 0 ok s = Inr (0, s')) \<and>
     map_of (tls s) (1, 0) = Some 1 \<and> pools s 0 \<noteq> None"
proof -
  obtain s :: "string state" where
    r: "run init ([] @ GetPool 0 0 True #
          [New 0 0 1 ''kek'' True (Block 2), GetPool 1 0 True]) = Inr s"
    by (simp add: op_defs)
  have b: "length ([] @ GetPool 0 0 True #
          [New 0 0 1 ''kek'' True (Block 2), GetPool 1 0 True :: string event]) < 2 ^ 64"
    by simp
  have ne: "ThreadExit 0 \<notin> set [New 0 0 1 ''kek'' True (Block 2), GetPool 1 0 True :: string event]"
    by simp
  have e: "GetPool 0 0 True = (GetPool 0 0 True :: string event) \<or>
           GetPool 0 0 True = New 0 0 0 [] True OutOfMemory"
    by simp
  from getPool_same_instance [OF r b e ne]
  obtain s0 :: "string state" and p s1 where
    g: "run init [] = Inr s0" "getPool 0 0 True s0 = Inr (p, s1)" and
    rest: "pools s p \<noteq> None" "\<forall>ok. \<exists>s'. getPool 0 0 ok s = Inr (p, s')"
    by blast
  from g(1) have "s0 = init" by simp
  with g(2) have "p = 0"
    by (simp add: getPool_def init_def Let_def)
  moreover have "map_of (tls s) (1, 0) = Some 1"
    using r by (auto simp: op_defs)
  ultimately show ?thesis
    using r rest by auto
qed

subsection \<open>A copy outlives its source\<close>

lemma SmallImpl_ctor_ok:
  assumes c: "consistent s" and fresh: "h \<notin> fst ` set (handles s)"
  shows "\<exists>s' p a. SmallImpl_ctor t T h v True (Block n) s = Inr s' \<and> consistent s' \<and>
           handles s' = (h, \<lparr>owner = p, counter = Some a\<rparr>) # handles s \<and>
           cells s a = None \<and> cells s' = (cells s)(a \<mapsto> AtomicCounter_ctor v)"
proof -
  obtain p s1 where g: "getPool t T True s = Inr (p, s1)"
    by (cases "map_of (tls s) (t, T)") (simp_all add: getPool_def Let_def)
  from getPool_consistent [OF c [unfolded consistent_def] g]
  have c1: "consistent_with [\<lparr>owner = p, counter = None\<rparr>] s1" by simp
  from ParallelPool_construct_consistent [OF c1, of v "Block n"] obtain r s2 where
    pc: "ParallelPool_construct p v (Block n) s1 = Inr (r, s2)" and
    eff: "case r of
              None \<Rightarrow> Block n = OutOfMemory \<and> cells s2 = cells s1 \<and>
                        trace s2 = trace s1 @ [Lock p, Unlock p]
            | Some a \<Rightarrow> cells s1 a = None \<and>
                        cells s2 = (cells s1)(a \<mapsto> AtomicCounter_ctor v) \<and>
                        trace s2 = trace s1 @ [Lock p, Constructed p a, Unlock p]"
    by blast
  from eff obtain a where a: "r = Some a" by (cases r) auto
  let ?s' = "s2\<lparr>handles := (h, \<lparr>owner = p, counter = r\<rparr>) # handles s2\<rparr>"
  have run: "SmallImpl_ctor t T h v True (Block n) s = Inr ?s'"
    using fresh g pc by (simp add: SmallImpl_ctor_def)
  from SmallImpl_ctor_consistent [OF c run] a show ?thesis
    using run by auto
qed

lemma SmallImpl_copy_ok:
  assumes c: "consistent s" and x: "map_of (handles s) src = Some x"
    and a: "counter x = Some a" and fresh: "dst \<notin> fst ` set (handles s)"
  shows "\<exists>d. cells s a = Some d \<and>
           SmallImpl_copy src dst s =
             Inr (s\<lparr>use_count := (use_count s)(owner x := use_count s (owner x) + 1),
                    cells := (cells s)(a \<mapsto> d\<lparr>uses := uses d + 1\<rparr>),
                    handles := (dst, x) # handles s\<rparr>)"
proof -
  from handle_cell_alive [OF c x a] obtain d where d: "cells s a = Some d" by blast
  have "\<lparr>owner = owner x, counter = Some a\<rparr> = x"
    using a by (simp flip: a)
  with x a fresh d show ?thesis
    by (simp add: SmallImpl_copy_def Let_def shared_ptr_copy_def atomic_pre_increment_def)
qed

text \<open>
  Claim C7. From any reachable state: construct \<open>h1\<close> from \<open>v\<close> (the allocators
  succeeding), copy it to \<open>h2\<close>, destroy \<open>h1\<close>. All three succeed; \<^verbatim>\<open>data()\<close> of \<open>h2\<close>
  then returns a reference to a cell whose payload is \<open>v\<close>. Destroying \<open>h2\<close> succeeds,
  destroys the cell and frees it to its pool.
\<close>

theorem copy_outlives_source:
  assumes "run init evs = Inr s" and "length evs + 2 < 2 ^ 64"
    and "h1 \<notin> fst ` set (handles s)" and "h2 \<notin> fst ` set (handles s)" and "h1 \<noteq> h2"
  shows "\<exists>s1 s2 s3 s4 p a.
           step s (New t T h1 v True (Block n)) = Inr s1 \<and>
           step s1 (Copy t1 h1 h2) = Inr s2 \<and>
           step s2 (Delete t2 h1) = Inr s3 \<and>
           map_of (handles s3) h2 = Some \<lparr>owner = p, counter = Some a\<rparr> \<and>
           SmallImpl_data h2 s3 = Inr a \<and> read_ref a s3 = Inr v \<and>
           step s3 (Delete t3 h2) = Inr s4 \<and>
           cells s4 a = None \<and>
           (\<exists>tail. trace s4 = trace s3 @ [Lock p, Destroyed a, Freed p a, Unlock p] @ tail \<and>
              (tail = [] \<or> tail = [PoolDeleted p]))"
proof -
  from reachable_consistent [OF assms(1)] assms(2)
  have c: "consistent s" and len: "length (handles s) \<le> length evs" by simp_all
  note w = consistent_withD [OF c [unfolded consistent_def]]
  from SmallImpl_ctor_ok [OF c assms(3), of t T v n] obtain s1 p a where
    r1: "SmallImpl_ctor t T h1 v True (Block n) s = Inr s1" and c1: "consistent s1" and
    h1: "handles s1 = (h1, \<lparr>owner = p, counter = Some a\<rparr>) # handles s" and
    fresh: "cells s a = None" and
    cl1: "cells s1 = (cells s)(a \<mapsto> AtomicCounter_ctor v)"
    by blast
  let ?x = "\<lparr>owner = p, counter = Some a\<rparr>"
  from no_cell_no_refs [OF w(3) w(5) fresh]
  have none: "cell_refs a (map snd (handles s)) = 0"
    by (simp add: live_handles_def)
  have x1: "map_of (handles s1) h1 = Some ?x" by (simp add: h1)
  have f2: "h2 \<notin> fst ` set (handles s1)"
    using assms(4,5) by (simp add: h1)
  from SmallImpl_copy_ok [OF c1 x1 _ f2, of a] obtain d where
    d: "cells s1 a = Some d" and
    r2: "SmallImpl_copy h1 h2 s1 =
           Inr (s1\<lparr>use_count := (use_count s1)(p := use_count s1 p + 1),
                   cells := (cells s1)(a \<mapsto> d\<lparr>uses := uses d + 1\<rparr>),
                   handles := (h2, ?x) # handles s1\<rparr>)"
    by auto
  let ?s2 = "s1\<lparr>use_count := (use_count s1)(p := use_count s1 p + 1),
                cells := (cells s1)(a \<mapsto> d\<lparr>uses := uses d + 1\<rparr>),
                handles := (h2, ?x) # handles s1\<rparr>"
  from d cl1 have dv: "data d = v"
    by (auto simp: AtomicCounter_ctor_def)
  have b1: "length (handles s1) + 1 < 2 ^ 64"
    using len assms(2) by (simp add: h1)
  from SmallImpl_copy_consistent [OF c1 r2 b1] have c2: "consistent ?s2" ..
  have x2: "map_of (handles ?s2) h1 = Some ?x"
    using assms(5) by (simp add: h1)
  have refs2: "cell_refs a (map snd (handles ?s2)) = 2"
    using none by (simp add: h1)
  from SmallImpl_dtor_consistent [OF c2 x2, of a] obtain s3 d2 where
    r3: "SmallImpl_dtor h1 ?s2 = Inr s3" and c3: "consistent s3" and
    h3: "handles s3 = filter (\<lambda>e. fst e \<noteq> h1) (handles ?s2)" and
    d2: "cells ?s2 a = Some d2" and
    e3: "if cell_refs a (map snd (handles ?s2)) = 1
         then cells s3 = (cells ?s2)(a := None) \<and>
              (\<exists>tail. trace s3 = trace ?s2 @ [Lock (owner ?x), Destroyed a,
                                          Freed (owner ?x) a, Unlock (owner ?x)] @ tail \<and>
                 (tail = [] \<or> tail = [PoolDeleted (owner ?x)]))
         else cells s3 = (cells ?s2)(a \<mapsto> d2\<lparr>uses := uses d2 - 1\<rparr>) \<and>
              trace s3 = trace ?s2"
    by auto
  from e3 refs2 have cl3: "cells s3 = (cells ?s2)(a \<mapsto> d2\<lparr>uses := uses d2 - 1\<rparr>)"
    by simp
  from d2 dv have dv2: "data d2 = v" by auto
  have keep: "filter (\<lambda>e. fst e \<noteq> h1) (handles s) = handles s"
    using assms(3) by (auto simp: filter_id_conv)
  have h3': "handles s3 = (h2, ?x) # handles s"
    using assms(5) keep by (simp add: h3 h1)
  have x3: "map_of (handles s3) h2 = Some ?x" by (simp add: h3')
  have data3: "SmallImpl_data h2 s3 = Inr a"
    using x3 cl3 by (simp add: SmallImpl_data_def)
  have read3: "read_ref a s3 = Inr v"
    using cl3 dv2 by (simp add: read_ref_def)
  have refs3: "cell_refs a (map snd (handles s3)) = 1"
    using none by (simp add: h3')
  from SmallImpl_dtor_consistent [OF c3 x3, of a] obtain s4 where
    r4: "SmallImpl_dtor h2 s3 = Inr s4" and
    e4: "if cell_refs a (map snd (handles s3)) = 1
         then cells s4 = (cells s3)(a := None) \<and>
              (\<exists>tail. trace s4 = trace s3 @ [Lock (owner ?x), Destroyed a,
                                          Freed (owner ?x) a, Unlock (owner ?x)] @ tail \<and>
                 (tail = [] \<or> tail = [PoolDeleted (owner ?x)]))
         else True"
    by (auto split: if_splits)
  from e4 refs3 have gone: "cells s4 a = None" and
    tr: "\<exists>tail. trace s4 = trace s3 @ [Lock p, Destroyed a, Freed p a, Unlock p] @ tail \<and>
              (tail = [] \<or> tail = [PoolDeleted p])"
    by simp_all
  show ?thesis
  proof (rule exI [of _ s1], rule exI [of _ ?s2], rule exI [of _ s3], rule exI [of _ s4],
      rule exI [of _ p], rule exI [of _ a], intro conjI)
    show "step s (New t T h1 v True (Block n)) = Inr s1" using r1 by simp
    show "step s1 (Copy t1 h1 h2) = Inr ?s2" using r2 by simp
    show "step ?s2 (Delete t2 h1) = Inr s3" using r3 by simp
    show "map_of (handles s3) h2 = Some ?x" by (rule x3)
    show "SmallImpl_data h2 s3 = Inr a" by (rule data3)
    show "read_ref a s3 = Inr v" by (rule read3)
    show "step s3 (Delete t3 h2) = Inr s4" using r4 by simp
    show "cells s4 a = None" by (rule gone)
    show "\<exists>tail. trace s4 = trace s3 @ [Lock p, Destroyed a, Freed p a, Unlock p] @ tail \<and>
              (tail = [] \<or> tail = [PoolDeleted p])" by (rule tr)
  qed
qed

theorem copy_outlives_source_witness:
  "\<exists>s1 s2 s3 s4 p a.
     step init (New 0 0 1 ''a long string'' True (Block 0)) = Inr s1 \<and>
     step s1 (Copy 0 1 2) = Inr s2 \<and>
     step s2 (Delete 0 1) = Inr s3 \<and>
     map_of (handles s3) 2 = Some \<lparr>owner = p, counter = Some a\<rparr> \<and>
     SmallImpl_data 2 s3 = Inr a \<and> read_ref a s3 = Inr ''a long string'' \<and>
     step s3 (Delete 0 2) = Inr s4 \<and>
     cells s4 a = None \<and>
     (\<exists>tail. trace s4 = trace s3 @ [Lock p, Destroyed a, Freed p a, Unlock p] @ tail \<and>
        (tail = [] \<or> tail = [PoolDeleted p]))"
proof -
  have r: "run init [] = Inr (init :: string state)" by simp
  have b: "length ([] :: string event list) + 2 < 2 ^ 64" by simp
  have f: "1 \<notin> fst ` set (handles (init :: string state))"
    "2 \<notin> fst ` set (handles (init :: string state))" "(1 :: nat) \<noteq> 2"
    by (simp_all add: init_def)
  from copy_outlives_source [OF r b f, of 0 0 "''a long string''" 0 0 0 0]
  show ?thesis .
qed

end
